theory Spec2Isabelle
  imports Complex_Main "HOL-Library.Char_ord" "HOL-Library.List_Lexorder"
begin

section \<open>Time, calendar and the Europe/London zone\<close>

text \<open>
  Instants are integers: microseconds since 1970-01-01 00:00 UTC, the resolution of the
  \<^verbatim>\<open>datetime\<close> values that \<^verbatim>\<open>t.astimezone(zone)\<close> hands to pandas.
  A timestamp that lies on a minute boundary (the column \<^verbatim>\<open>DateTime\<close>, the bounds of
  the daily sweep) is kept as its count of minutes since the epoch; a calendar date is its
  count of days since 1970-01-01; the column \<^verbatim>\<open>Time\<close> (the wall-clock time moved to
  2000-01-01) is kept as the minute of the day, \<open>0 .. 1439\<close>.
\<close>

datatype error = KeyError | IndexError | AttributeError | AmbiguousTimeError | ValueError

definition us_per_minute :: int where
  "us_per_minute = 60000000"

definition minutes_per_day :: int where
  "minutes_per_day = 1440"

text \<open>The proleptic Gregorian calendar: the day number of the civil date \<open>y-m-d\<close>.\<close>

definition days_from_civil :: "int \<Rightarrow> int \<Rightarrow> int \<Rightarrow> int" where
  "days_from_civil y m d =
     (let y' = (if m \<le> 2 then y - 1 else y);
          era = y' div 400;
          yoe = y' - era * 400;
          doy = (153 * (if m > 2 then m - 3 else m + 9) + 2) div 5 + d - 1;
          doe = yoe * 365 + yoe div 4 - yoe div 100 + doy
      in era * 146097 + doe - 719468)"

text \<open>The instant \<open>y-m-d H:M\<close> UTC, in minutes since the epoch.\<close>

definition utc_minute :: "int \<Rightarrow> int \<Rightarrow> int \<Rightarrow> int \<Rightarrow> int \<Rightarrow> int" where
  "utc_minute y m d H M = days_from_civil y m d * minutes_per_day + H * 60 + M"

text \<open>
  \<^verbatim>\<open>zone = timezone('Europe/London')\<close>. Over the instants the script handles (the sweep
  runs from 2021-12-31 to 2023-01-04) the zone changes its offset twice: British Summer Time
  starts on 2022-03-27 at 01:00 UTC and ends on 2022-10-30 at 01:00 UTC. The offset is in
  minutes; the definition is the zone's rule between 2021-10-31 and 2023-03-26.
\<close>

definition bst_start :: int where
  "bst_start = utc_minute 2022 3 27 1 0"

definition bst_end :: int where
  "bst_end = utc_minute 2022 10 30 1 0"

definition utcoffset :: "int \<Rightarrow> int" where
  "utcoffset m = (if bst_start \<le> m \<and> m < bst_end then 60 else 0)"

text \<open>The wall-clock minute shown in London at the UTC minute \<open>m\<close>.\<close>

definition to_local :: "int \<Rightarrow> int" where
  "to_local m = m + utcoffset m"

text \<open>
  A wall-clock minute is ambiguous when the clock shows it twice (01:00 to 01:59 on
  2022-10-30) and nonexistent when the clock skips it (01:00 to 01:59 on 2022-03-27).
\<close>

definition is_ambiguous :: "int \<Rightarrow> bool" where
  "is_ambiguous w = (bst_end \<le> w \<and> w < bst_end + 60)"

definition is_nonexistent :: "int \<Rightarrow> bool" where
  "is_nonexistent w = (bst_start \<le> w \<and> w < bst_start + 60)"

text \<open>
  Local midnight of a calendar day as a UTC minute. Midnight is never skipped or repeated
  in this zone; it is in summer time from 2022-03-28 to 2022-10-30.
\<close>

definition local_midnight :: "int \<Rightarrow> int" where
  "local_midnight day =
     (if days_from_civil 2022 3 28 \<le> day \<and> day \<le> days_from_civil 2022 10 30
      then day * minutes_per_day - 60 else day * minutes_per_day)"

section \<open>Event discovery: the day-by-day sweep\<close>

text \<open>
  \<^verbatim>\<open>dates = pd.date_range(start='2021/12/31 00:00:00', freq='1D', periods=370,
  tz='Europe/London')\<close>: with a time zone, the frequency \<^verbatim>\<open>1D\<close> steps by calendar day,
  so the 370 entries are the local midnights of 370 consecutive dates. They are instants
  in microseconds.
\<close>

definition dates :: "int list" where
  "dates = map (\<lambda>i. local_midnight (days_from_civil 2021 12 31 + int i) * us_per_minute) [0..<370]"

text \<open>
  \<^verbatim>\<open>almanac.find_discrete(t0, t1, f)\<close> is the ephemeris oracle. The model takes it as a
  function from the two bounds of a window to the events reported there: each event is the
  instant \<^verbatim>\<open>t.astimezone(zone)\<close> and the integer \<^verbatim>\<open>e\<close>.
\<close>

type_synonym find_discrete = "int \<Rightarrow> int \<Rightarrow> (int \<times> int) list"

text \<open>\<^verbatim>\<open>almanac.TWILIGHTS\<close>, the library's table from phase-id to phase name.\<close>

definition TWILIGHTS :: "int \<rightharpoonup> string" where
  "TWILIGHTS = [0 \<mapsto> ''Night'', 1 \<mapsto> ''Astronomical twilight'', 2 \<mapsto> ''Nautical twilight'',
                3 \<mapsto> ''Civil twilight'', 4 \<mapsto> ''Day'']"

text \<open>
  The inner loop, \<^verbatim>\<open>for t, e in zip(times, events): all_records.append(...)\<close>; the
  lookup \<^verbatim>\<open>almanac.TWILIGHTS[e]\<close> raises \<^verbatim>\<open>KeyError\<close> on an unknown id.
\<close>

fun record_events :: "(int \<times> int) list \<Rightarrow> error + (int \<times> string \<times> int) list" where
  "record_events [] = Inr []"
| "record_events ((t, e) # tes) =
     (case TWILIGHTS e of
        None \<Rightarrow> Inl KeyError
      | Some name \<Rightarrow>
          (case record_events tes of
             Inl err \<Rightarrow> Inl err
           | Inr rs \<Rightarrow> Inr ((t, name, e) # rs)))"

text \<open>The outer loop, \<^verbatim>\<open>for first_day, second_day in zip(dates, dates[1:])\<close>.\<close>

fun sweep :: "find_discrete \<Rightarrow> int list \<Rightarrow> error + (int \<times> string \<times> int) list" where
  "sweep f (first_day # second_day # ds) =
     (case record_events (f first_day second_day) of
        Inl err \<Rightarrow> Inl err
      | Inr rs \<Rightarrow>
          (case sweep f (second_day # ds) of
             Inl err \<Rightarrow> Inl err
           | Inr rs' \<Rightarrow> Inr (rs @ rs')))"
| "sweep f ds = Inr []"

definition all_records :: "find_discrete \<Rightarrow> error + (int \<times> string \<times> int) list" where
  "all_records f = sweep f dates"

section \<open>Event expansion\<close>

record stage_row =
  StageStart :: int
  Stage :: string
  StageID :: int

text \<open>
  \<^verbatim>\<open>all_stages['StageStart'].dt.floor('1min')\<close>. On a zone-aware column pandas floors the
  wall-clock time and localises the result again, with \<^verbatim>\<open>ambiguous='raise'\<close>: an event
  in the hour that the clock repeats raises. The result is the minute count of the floored
  instant.
\<close>

definition floor_1min :: "int \<Rightarrow> error + int" where
  "floor_1min t =
     (let m = t div us_per_minute
      in if is_ambiguous (to_local m) then Inl AmbiguousTimeError else Inr m)"

text \<open>
  The frame \<^verbatim>\<open>all_stages\<close> with its column \<^verbatim>\<open>DateTime\<close>, already keyed by it as
  \<^verbatim>\<open>set_index('DateTime')\<close> does: a list of pairs (DateTime, row).
\<close>

fun stage_rows :: "(int \<times> string \<times> int) list \<Rightarrow> error + (int \<times> stage_row) list" where
  "stage_rows [] = Inr []"
| "stage_rows ((t, name, e) # rs) =
     (case floor_1min t of
        Inl err \<Rightarrow> Inl err
      | Inr m \<Rightarrow>
          (case stage_rows rs of
             Inl err \<Rightarrow> Inl err
           | Inr rows \<Rightarrow> Inr ((m, \<lparr>StageStart = t, Stage = name, StageID = e\<rparr>) # rows)))"

text \<open>
  A frame built from no records has no datetime column, and the accessor \<^verbatim>\<open>.dt\<close>
  raises \<^verbatim>\<open>AttributeError\<close>.
\<close>

definition all_stages_of :: "(int \<times> string \<times> int) list \<Rightarrow> error + (int \<times> stage_row) list" where
  "all_stages_of rs = (if rs = [] then Inl AttributeError else stage_rows rs)"

text \<open>
  Forward fill: on an index in increasing order, the row of the last label at or before
  the minute \<open>m\<close>; none when every label is later (a null row in pandas).
\<close>

fun asof :: "(int \<times> 'a) list \<Rightarrow> int \<Rightarrow> 'a option" where
  "asof [] m = None"
| "asof ((k, v) # kvs) m =
     (if k \<le> m then (case asof kvs m of None \<Rightarrow> Some v | Some v' \<Rightarrow> Some v') else None)"

text \<open>
  \<^verbatim>\<open>.resample('1min').ffill()\<close>: the resampler orders the frame by its index (a stable
  sort), lays out one label per minute from the first index value to the last, and
  reindexes with forward fill; reindexing raises \<^verbatim>\<open>ValueError\<close> when two rows carry
  the same label.
\<close>

definition resample_ffill :: "(int \<times> stage_row) list \<Rightarrow> error + (int \<times> stage_row option) list" where
  "resample_ffill df =
     (let s = sort_key fst df
      in if s = [] then Inr []
         else if \<not> distinct (map fst s) then Inl ValueError
         else Inr (map (\<lambda>m. (m, asof s m)) [fst (hd s) .. fst (last s)]))"

text \<open>
  A row of \<^verbatim>\<open>all_minutes\<close>: the minute, the forward-filled columns \<^verbatim>\<open>StageStart\<close>,
  \<^verbatim>\<open>Stage\<close> and \<^verbatim>\<open>StageID\<close> (null together or not at all), and the derived columns
  \<^verbatim>\<open>Date\<close> (\<^verbatim>\<open>.dt.date\<close>, the local calendar date) and \<^verbatim>\<open>Time\<close> (the local
  time of day).
\<close>

record minute_row =
  DateTime :: int
  filled :: "stage_row option"
  Date :: int
  Time :: int

definition minute_of :: "int \<times> stage_row option \<Rightarrow> minute_row" where
  "minute_of p =
     \<lparr>DateTime = fst p, filled = snd p,
      Date = to_local (fst p) div minutes_per_day,
      Time = to_local (fst p) mod minutes_per_day\<rparr>"

text \<open>Lines 44 to 52: the dense table before it is cut down to the year.\<close>

definition expand :: "(int \<times> string \<times> int) list \<Rightarrow> error + minute_row list" where
  "expand rs =
     (case all_stages_of rs of
        Inl err \<Rightarrow> Inl err
      | Inr df \<Rightarrow>
          (case resample_ffill df of
             Inl err \<Rightarrow> Inl err
           | Inr ms \<Rightarrow> Inr (map minute_of ms)))"

text \<open>
  \<^verbatim>\<open>.between('2022/01/01 00:00:00', '2022/12/31 23:59:59')\<close>, inclusive at both ends; the
  bounds are read in the zone of the column, where both lie in winter time.
\<close>

definition window_start :: int where
  "window_start = utc_minute 2022 1 1 0 0 * us_per_minute"

definition window_end :: int where
  "window_end = utc_minute 2022 12 31 23 59 * us_per_minute + 59000000"

definition in_window :: "minute_row \<Rightarrow> bool" where
  "in_window r = (window_start \<le> DateTime r * us_per_minute \<and> DateTime r * us_per_minute \<le> window_end)"

definition all_minutes_of :: "(int \<times> string \<times> int) list \<Rightarrow> error + minute_row list" where
  "all_minutes_of rs =
     (case expand rs of Inl err \<Rightarrow> Inl err | Inr ms \<Rightarrow> Inr (filter in_window ms))"

definition all_minutes :: "find_discrete \<Rightarrow> error + minute_row list" where
  "all_minutes f =
     (case all_records f of Inl err \<Rightarrow> Inl err | Inr rs \<Rightarrow> all_minutes_of rs)"

section \<open>Label derivation\<close>

text \<open>
  \<^verbatim>\<open>last_day = all_minutes[all_minutes['Date'].eq(all_minutes['Date'].max())]\<close>. The
  maximum of an empty column is null and equals no date.
\<close>

definition last_day_of :: "minute_row list \<Rightarrow> minute_row list" where
  "last_day_of ms =
     (if ms = [] then [] else filter (\<lambda>r. Date r = Max (set (map Date ms))) ms)"

text \<open>
  The column \<^verbatim>\<open>Period\<close>: \<^verbatim>\<open>'Day'\<close> for the phase Day, otherwise the phase name,
  an underscore and \<^verbatim>\<open>strftime('%p')\<close> of the local time (AM before noon, PM from noon
  on). A null phase gives a null period.
\<close>

definition am_pm :: "minute_row \<Rightarrow> string" where
  "am_pm r = (if Time r < 720 then ''AM'' else ''PM'')"

definition Period :: "minute_row \<Rightarrow> string option" where
  "Period r =
     (case filled r of
        None \<Rightarrow> None
      | Some s \<Rightarrow> Some (if Stage s = ''Day'' then ''Day'' else Stage s @ ''_'' @ am_pm r))"

text \<open>
  The aggregate \<^verbatim>\<open>'mean'\<close> of the column \<^verbatim>\<open>Time\<close>. The column holds the timestamps
  2000-01-01 HH:MM:00 (line 52); pandas averages their nanosecond counts in float64 and
  stores the result as a timestamp, which for a group of several rows can differ from the
  exact mean of the times by the rounding of float64 at that magnitude. This arithmetic
  is not modelled: the aggregate is kept as the formal mean \<^verbatim>\<open>Mean_of ts\<close> of the
  minutes of day \<^verbatim>\<open>ts\<close> it is taken over, in row order, and is given no numeric value.
\<close>

datatype time_mean = Mean_of "int list"

record label_row =
  lPeriod :: string
  lTime :: time_mean
  lDate :: int
  lStageID :: int

definition group_of :: "minute_row list \<Rightarrow> string \<Rightarrow> minute_row list" where
  "group_of ms k = filter (\<lambda>r. Period r = Some k) ms"

text \<open>
  \<^verbatim>\<open>groupby('Period', as_index=False).agg({'Time': 'mean', 'Date': 'first',
  'StageID': 'first'})\<close>: one row per distinct key, keys in sorted order, rows with a null
  key dropped; \<^verbatim>\<open>first\<close> is the first non-null value of the group.
\<close>

definition agg :: "minute_row list \<Rightarrow> string \<Rightarrow> label_row" where
  "agg g k =
     \<lparr>lPeriod = k,
      lTime = Mean_of (map Time g),
      lDate = Date (hd g),
      lStageID = hd (concat (map (\<lambda>r. case filled r of None \<Rightarrow> [] | Some s \<Rightarrow> [StageID s]) g))\<rparr>"

definition period_keys :: "minute_row list \<Rightarrow> string list" where
  "period_keys ms = sort (remdups (concat (map (\<lambda>r. case Period r of None \<Rightarrow> [] | Some k \<Rightarrow> [k]) ms)))"

definition labels_of :: "minute_row list \<Rightarrow> label_row list" where
  "labels_of ms = map (\<lambda>k. agg (group_of (last_day_of ms) k) k) (period_keys (last_day_of ms))"

definition labels :: "find_discrete \<Rightarrow> error + label_row list" where
  "labels f = (case all_minutes f of Inl err \<Rightarrow> Inl err | Inr ms \<Rightarrow> Inr (labels_of ms))"

text \<open>The text drawn at an anchor, \<^verbatim>\<open>row['Period'].split('_')[0]\<close>.\<close>

definition label_text :: "label_row \<Rightarrow> string" where
  "label_text l = takeWhile (\<lambda>c. c \<noteq> CHR ''_'') (lPeriod l)"

section \<open>Grid construction\<close>

text \<open>
  \<^verbatim>\<open>pivot_table(index='Time', columns='Date', values='StageID')\<close> with its defaults:
  the values of each (Time, Date) pair are aggregated by their mean, nulls left out; the
  row labels are the distinct times and the column labels the distinct dates that have a
  value, both sorted; a pair with no value is an empty cell.
\<close>

text \<open>
  The mean of the phase-ids of a cell, an exact rational. pandas computes it in float64,
  which is exact here: the table has one row per minute, so a cell averages the ids of at
  most two rows (two in the hour that the local clock repeats), each an integer from 0 to 4.
\<close>

definition mean :: "int list \<Rightarrow> rat" where
  "mean xs = of_int (sum_list xs) / of_int (int (length xs))"

record grid =
  index :: "int list"
  columns :: "int list"
  cells :: "rat option list list"

definition valued :: "minute_row list \<Rightarrow> (int \<times> int \<times> int) list" where
  "valued ms = concat (map (\<lambda>r. case filled r of None \<Rightarrow> [] | Some s \<Rightarrow> [(Time r, Date r, StageID s)]) ms)"

definition cell :: "(int \<times> int \<times> int) list \<Rightarrow> int \<Rightarrow> int \<Rightarrow> rat option" where
  "cell vs t d =
     (let xs = map (\<lambda>(t', d', v). v) (filter (\<lambda>(t', d', v). t' = t \<and> d' = d) vs)
      in if xs = [] then None else Some (mean xs))"

definition pivot_table :: "minute_row list \<Rightarrow> grid" where
  "pivot_table ms =
     (let vs = valued ms;
          rows = sort (remdups (map (\<lambda>(t, d, v). t) vs));
          cols = sort (remdups (map (\<lambda>(t, d, v). d) vs))
      in \<lparr>index = rows, columns = cols,
          cells = map (\<lambda>t. map (\<lambda>d. cell vs t d) cols) rows\<rparr>)"

definition pivoted :: "find_discrete \<Rightarrow> error + grid" where
  "pivoted f = (case all_minutes f of Inl err \<Rightarrow> Inl err | Inr ms \<Rightarrow> Inr (pivot_table ms))"

section \<open>Solstice marking\<close>

text \<open>\<^verbatim>\<open>almanac.SEASON_EVENTS\<close>, the library's names of the four seasonal events.\<close>

definition SEASON_EVENTS :: "string list" where
  "SEASON_EVENTS = [''Vernal Equinox'', ''Summer Solstice'', ''Autumnal Equinox'', ''Winter Solstice'']"

text \<open>Python's list indexing: a negative index counts from the end.\<close>

definition py_index :: "'a list \<Rightarrow> int \<Rightarrow> error + 'a" where
  "py_index xs i =
     (if 0 \<le> i \<and> i < int (length xs) then Inr (xs ! nat i)
      else if i < 0 \<and> - int (length xs) \<le> i then Inr (xs ! nat (int (length xs) + i))
      else Inl IndexError)"

text \<open>\<^verbatim>\<open>str.lower\<close> on the ASCII letters, and the substring test \<^verbatim>\<open>sub in s\<close>.\<close>

definition lower_char :: "char \<Rightarrow> char" where
  "lower_char c =
     (case map_of (zip ''ABCDEFGHIJKLMNOPQRSTUVWXYZ'' ''abcdefghijklmnopqrstuvwxyz'') c of
        None \<Rightarrow> c
      | Some c' \<Rightarrow> c')"

definition lower :: "string \<Rightarrow> string" where
  "lower s = map lower_char s"

fun contains :: "string \<Rightarrow> string \<Rightarrow> bool" where
  "contains [] sub = (sub = [])"
| "contains (c # cs) sub = (take (length sub) (c # cs) = sub \<or> contains cs sub)"

text \<open>
  The two bounds of the seasonal query, \<^verbatim>\<open>ts.utc(2022, 1, 1)\<close> and
  \<^verbatim>\<open>ts.utc(2022, 12, 31)\<close>, in microseconds.
\<close>

definition seasons_t0 :: int where
  "seasons_t0 = utc_minute 2022 1 1 0 0 * us_per_minute"

definition seasons_t1 :: int where
  "seasons_t1 = utc_minute 2022 12 31 0 0 * us_per_minute"

text \<open>
  The loop over the seasonal events: an event whose lower-cased name contains
  \<^verbatim>\<open>solstice\<close> gets a vertical line at its local date, \<^verbatim>\<open>dt.date()\<close>, annotated
  with the event's name (the drawn text adds the day and month in brackets).
\<close>

fun mark_solstices :: "(int \<times> int) list \<Rightarrow> error + (int \<times> string) list" where
  "mark_solstices [] = Inr []"
| "mark_solstices ((time, idx) # rest) =
     (case py_index SEASON_EVENTS idx of
        Inl err \<Rightarrow> Inl err
      | Inr event \<Rightarrow>
          (case mark_solstices rest of
             Inl err \<Rightarrow> Inl err
           | Inr marks \<Rightarrow>
               if contains (lower event) ''solstice''
               then Inr ((to_local (time div us_per_minute) div minutes_per_day, event) # marks)
               else Inr marks))"

definition solstices :: "find_discrete \<Rightarrow> error + (int \<times> string) list" where
  "solstices g = mark_solstices (g seasons_t0 seasons_t1)"

section \<open>Notions used in the statements\<close>

text \<open>
  An ephemeris oracle built from a fixed chronological list of events: asked about a window,
  it reports the events after the window's start and up to its end, as a search for the
  changes of a step function does.
\<close>

definition events_between :: "(int \<times> int) list \<Rightarrow> find_discrete" where
  "events_between evs a b = filter (\<lambda>(t, e). a < t \<and> t \<le> b) evs"

text \<open>The record the sweep appends for an event with a known phase-id.\<close>

definition named :: "int \<times> int \<Rightarrow> int \<times> string \<times> int" where
  "named te = (fst te, (case TWILIGHTS (snd te) of None \<Rightarrow> [] | Some n \<Rightarrow> n), snd te)"

text \<open>
  The row of \<^verbatim>\<open>all_stages\<close> made from a record, with its index value: \<open>floored\<close> is the
  column \<^verbatim>\<open>DateTime\<close>, \<open>row_of\<close> the three other columns.
\<close>

definition keyed :: "int \<times> string \<times> int \<Rightarrow> int \<times> stage_row" where
  "keyed r = (case r of (t, n, e) \<Rightarrow> (t div us_per_minute, \<lparr>StageStart = t, Stage = n, StageID = e\<rparr>))"

definition floored :: "int \<times> string \<times> int \<Rightarrow> int" where
  "floored r = fst (keyed r)"

definition row_of :: "int \<times> string \<times> int \<Rightarrow> stage_row" where
  "row_of r = snd (keyed r)"

text \<open>The entry of an indexed frame with the greatest label at or before the minute \<open>m\<close>.\<close>

definition latest :: "(int \<times> 'a) list \<Rightarrow> int \<Rightarrow> int \<times> 'a \<Rightarrow> bool" where
  "latest df m kv = (kv \<in> set df \<and> fst kv \<le> m \<and> (\<forall>kv' \<in> set df. fst kv' \<le> m \<longrightarrow> fst kv' \<le> fst kv))"

text \<open>The first and the last minute of the target year, 2022-01-01 00:00 and 2022-12-31 23:59.\<close>

definition year_first_minute :: int where
  "year_first_minute = utc_minute 2022 1 1 0 0"

definition year_last_minute :: int where
  "year_last_minute = utc_minute 2022 12 31 23 59"

text \<open>A row of the minute table that carries the phase \<open>name\<close>; a row before local noon.\<close>

definition has_stage :: "string \<Rightarrow> minute_row \<Rightarrow> bool" where
  "has_stage name r = (case filled r of None \<Rightarrow> False | Some s \<Rightarrow> Stage s = name)"

definition before_noon :: "minute_row \<Rightarrow> bool" where
  "before_noon r = (Time r < 720)"

section \<open>Example runs\<close>

text \<open>
  Events of a run whose table covers the whole year: night falls on 2021-12-31 at 18:00:30,
  the last day of 2022 passes through every phase (06:31:10, 07:15:40, 08:02:05, 08:43:50,
  15:48:15, 16:30:30, 17:16:45, 18:01:20), and the next event is at 06:31:15 on 2023-01-01.
\<close>

definition year_events :: "(int \<times> int) list" where
  "year_events =
     [(1640973630000000, 0),
      (1672468270000000, 1), (1672470940000000, 2), (1672473725000000, 3),
      (1672476230000000, 4), (1672501695000000, 3), (1672504230000000, 2),
      (1672507005000000, 1), (1672509680000000, 0),
      (1672554675000000, 1)]"

text \<open>
  Events of a short run on 2022-01-01 that passes through all phases around noon: 11:55:05,
  11:56:10, 11:57:20, 11:58:30, 11:59:40, 12:01:05, 12:02:10, 12:03:20 and 12:04:30.
\<close>

definition noon_events :: "(int \<times> int) list" where
  "noon_events =
     [(1641038105000000, 0), (1641038170000000, 1), (1641038240000000, 2),
      (1641038310000000, 3), (1641038380000000, 4), (1641038465000000, 3),
      (1641038530000000, 2), (1641038600000000, 1), (1641038670000000, 0)]"

text \<open>
  Events of a short run in which night and astronomical twilight alternate after midnight:
  2021-12-31 23:58:30, then 00:02:10, 00:04:20, 00:06:40 and 00:08:15 on 2022-01-01.
\<close>

definition flicker_events :: "(int \<times> int) list" where
  "flicker_events =
     [(1640995110000000, 0), (1640995330000000, 1), (1640995460000000, 0),
      (1640995600000000, 1), (1640995695000000, 2)]"

text \<open>
  Events of a run in the polar night: the sweep finds nothing on 2021-12-31, and the first
  events are astronomical twilight at 08:00:30 and night again at 08:03:10 on 2022-01-01.
\<close>

definition polar_events :: "(int \<times> int) list" where
  "polar_events = [(1641024030000000, 1), (1641024190000000, 0)]"

text \<open>
  The seasonal events of 2022 (20 March 15:33, 21 June 09:14, 23 September 01:04 and
  21 December 21:48 UTC) and an oracle that searches a half-open interval for them.
\<close>

definition seasons_2022 :: "(int \<times> int) list" where
  "seasons_2022 =
     [(1647790380000000, 0), (1655802840000000, 1), (1663895040000000, 2), (1671659280000000, 3)]"

definition seasons_between :: "(int \<times> int) list \<Rightarrow> find_discrete" where
  "seasons_between evs a b = filter (\<lambda>(t, i). a \<le> t \<and> t < b) evs"

section \<open>Constants of the run\<close>


lemma day_numbers:
  "days_from_civil 2021 12 31 = 18992" "days_from_civil 2022 1 1 = 18993"
  "days_from_civil 2022 3 27 = 19078" "days_from_civil 2022 3 28 = 19079"
  "days_from_civil 2022 10 30 = 19295" "days_from_civil 2022 12 31 = 19357"
  by (simp_all add: days_from_civil_def)

lemma minute_numbers:
  "bst_start = 27472380" "bst_end = 27784860"
  "utc_minute 2022 1 1 0 0 = 27349920" "utc_minute 2022 12 31 23 59 = 27875519"
  "utc_minute 2022 12 31 0 0 = 27874080"
  by (simp_all add: bst_start_def bst_end_def utc_minute_def minutes_per_day_def day_numbers)

lemma instant_numbers:
  "window_start = 1640995200000000" "window_end = 1672531199000000"
  "seasons_t0 = 1640995200000000" "seasons_t1 = 1672444800000000"
  by (simp_all add: window_start_def window_end_def seasons_t0_def seasons_t1_def
      minute_numbers us_per_minute_def)

lemma in_window_iff: "in_window r \<longleftrightarrow> 27349920 \<le> DateTime r \<and> DateTime r \<le> 27875519"
  unfolding in_window_def instant_numbers us_per_minute_def by linarith

lemma season_names:
  "py_index SEASON_EVENTS 0 = Inr ''Vernal Equinox''"
  "py_index SEASON_EVENTS 1 = Inr ''Summer Solstice''"
  "py_index SEASON_EVENTS 2 = Inr ''Autumnal Equinox''"
  "py_index SEASON_EVENTS 3 = Inr ''Winter Solstice''"
  by (simp_all add: py_index_def SEASON_EVENTS_def)

lemma solstice_test:
  "\<not> contains (lower ''Vernal Equinox'') ''solstice''"
  "contains (lower ''Summer Solstice'') ''solstice''"
  "\<not> contains (lower ''Autumnal Equinox'') ''solstice''"
  "contains (lower ''Winter Solstice'') ''solstice''"
  by (simp_all add: lower_def lower_char_def)

lemma season_nth:
  "SEASON_EVENTS ! Suc 0 = ''Summer Solstice''" "SEASON_EVENTS ! 3 = ''Winter Solstice''"
  by (simp_all add: SEASON_EVENTS_def)

lemma mark_solstices_valid:
  "\<forall>(t, i) \<in> set evs. i = 0 \<or> i = 1 \<or> i = 2 \<or> i = 3 \<Longrightarrow>
   mark_solstices evs =
     Inr (map (\<lambda>(t, i). (to_local (t div us_per_minute) div minutes_per_day, SEASON_EVENTS ! nat i))
           (filter (\<lambda>(t, i). i = 1 \<or> i = 3) evs))"
proof (induction evs)
  case Nil
  then show ?case by simp
next
  case (Cons ev evs)
  obtain t i where ev: "ev = (t, i)" by (cases ev)
  from Cons.prems ev have i: "i = 0 \<or> i = 1 \<or> i = 2 \<or> i = 3" by simp
  from Cons have IH: "mark_solstices evs =
     Inr (map (\<lambda>(t, i). (to_local (t div us_per_minute) div minutes_per_day, SEASON_EVENTS ! nat i))
           (filter (\<lambda>(t, i). i = 1 \<or> i = 3) evs))" by simp
  from i show ?case
    by (elim disjE) (simp_all add: ev IH season_names solstice_test season_nth)
qed

section \<open>The sweep and its windows\<close>

lemma div_ge: "0 < c \<Longrightarrow> a * c \<le> x \<Longrightarrow> a \<le> x div (c::int)"
proof -
  assume c: "0 < c" and le: "a * c \<le> x"
  from zdiv_mono1 [OF le c] c show ?thesis by simp
qed

lemma div_lt: "0 < c \<Longrightarrow> x < b * c \<Longrightarrow> x div c < (b::int)"
proof (rule ccontr)
  assume c: "0 < c" and lt: "x < b * c" and n: "\<not> x div c < b"
  from n have "b \<le> x div c" by simp
  with c have "b * c \<le> (x div c) * c" by (simp add: mult_right_mono)
  also have "\<dots> \<le> x"
  proof -
    have "c * (x div c) + x mod c = x" by (rule mult_div_mod_eq)
    moreover from c have "0 \<le> x mod c" by simp
    ultimately have "c * (x div c) \<le> x" by linarith
    then show ?thesis by (simp add: mult.commute)
  qed
  finally show False using lt by simp
qed

lemma to_local_bounds: "m \<le> to_local m" "to_local m \<le> m + 60"
  by (simp_all add: to_local_def utcoffset_def)

lemma record_events_Inr:
  "record_events tes = Inr rs \<Longrightarrow>
   map (\<lambda>(t, n, e). (t, e)) rs = tes \<and> (\<forall>(t, n, e) \<in> set rs. TWILIGHTS e = Some n)"
proof (induction tes arbitrary: rs)
  case Nil
  then show ?case by simp
next
  case (Cons te tes)
  obtain t e where te: "te = (t, e)" by (cases te)
  from Cons.prems te obtain n rs' where n: "TWILIGHTS e = Some n"
    and r: "record_events tes = Inr rs'" and rs: "rs = (t, n, e) # rs'"
    by (auto split: option.splits sum.splits)
  from Cons.IH [OF r] n show ?case by (simp add: rs te)
qed

lemma sweep_events:
  "sweep f ds = Inr rs \<Longrightarrow>
   map (\<lambda>(t, n, e). (t, e)) rs = concat (map (\<lambda>(a, b). f a b) (zip ds (tl ds))) \<and>
   (\<forall>(t, n, e) \<in> set rs. TWILIGHTS e = Some n)"
proof (induction f ds arbitrary: rs rule: sweep.induct)
  case (1 f a b ds)
  from "1.prems" obtain r1 r2 where r1: "record_events (f a b) = Inr r1"
    and r2: "sweep f (b # ds) = Inr r2" and rs: "rs = r1 @ r2"
    by (auto split: sum.splits)
  from record_events_Inr [OF r1] "1.IH" [OF r1 r2] show ?case
    by (auto simp add: rs)
qed simp_all

lemma sweep_sorted:
  assumes "sorted ds"
    and "\<forall>(a, b) \<in> set (zip ds (tl ds)). sorted (map fst (f a b)) \<and> (\<forall>(t, e) \<in> set (f a b). a < t \<and> t < b)"
    and "sweep f ds = Inr rs"
  shows "sorted (map fst rs) \<and> (\<forall>t \<in> set (map fst rs). hd ds < t \<and> t < last ds)"
  using assms
proof (induction f ds arbitrary: rs rule: sweep.induct)
  case (1 f a b ds)
  from "1.prems"(3) obtain r1 r2 where r1: "record_events (f a b) = Inr r1"
    and r2: "sweep f (b # ds) = Inr r2" and rs: "rs = r1 @ r2"
    by (auto split: sum.splits)
  from record_events_Inr [OF r1] have "map fst (map (\<lambda>(t, n, e). (t, e)) r1) = map fst (f a b)"
    by simp
  then have m1: "map fst r1 = map fst (f a b)"
    by (simp add: case_prod_beta o_def)
  from "1.prems"(2) have w: "sorted (map fst (f a b))" "\<forall>(t, e) \<in> set (f a b). a < t \<and> t < b"
    by simp_all
  from w(2) have in1: "\<forall>t \<in> set (map fst (f a b)). a < t \<and> t < b" by auto
  from "1.prems"(1) have sd: "sorted (b # ds)" and ab: "a \<le> b" by simp_all
  from "1.prems"(2) have c2: "\<forall>(a, b) \<in> set (zip (b # ds) (tl (b # ds))).
      sorted (map fst (f a b)) \<and> (\<forall>(t, e) \<in> set (f a b). a < t \<and> t < b)"
    by simp
  from "1.IH" [OF r1 sd c2 r2]
  have s2: "sorted (map fst r2)" and in2: "\<forall>t \<in> set (map fst r2). b < t \<and> t < last (b # ds)"
    by simp_all
  from sd have bl: "b \<le> last (b # ds)"
    by (metis last_in_set list.discI list.sel(1) set_ConsD sorted_simps(2) order_refl)
  have "sorted (map fst rs)"
    unfolding rs map_append sorted_append using w(1) s2 in1 in2 m1 by fastforce
  moreover have "\<forall>t \<in> set (map fst rs). hd (a # b # ds) < t \<and> t < last (a # b # ds)"
    unfolding rs map_append using in1 in2 m1 ab bl by fastforce
  ultimately show ?case by simp
qed simp_all

lemma local_midnight_step:
  "local_midnight (d + 1) - local_midnight d =
     (if d = 19078 then 1380 else if d = 19295 then 1500 else 1440)"
  by (simp add: local_midnight_def day_numbers minutes_per_day_def)

lemma length_dates: "length dates = 370"
  by (simp add: dates_def)

lemma dates_nth: "i < 370 \<Longrightarrow> dates ! i = local_midnight (18992 + int i) * us_per_minute"
  by (simp add: dates_def day_numbers)

lemma dates_step:
  assumes "i < 369"
  shows "dates ! Suc i - dates ! i =
     (if i = 86 then 23 else if i = 303 then 25 else 24) * 60 * us_per_minute"
proof -
  have "dates ! Suc i - dates ! i =
     (local_midnight (18992 + int i + 1) - local_midnight (18992 + int i)) * us_per_minute"
    using assms by (simp add: dates_nth algebra_simps)
  also have "\<dots> = (if i = 86 then 23 else if i = 303 then 25 else 24) * 60 * us_per_minute"
    unfolding local_midnight_step by auto
  finally show ?thesis .
qed

lemma sorted_dates: "sorted dates"
proof -
  have "dates ! i \<le> dates ! Suc i" if "Suc i < length dates" for i
  proof -
    from that have i: "i < 369" by (simp add: length_dates)
    from dates_step [OF i] have "0 \<le> dates ! Suc i - dates ! i"
      by (simp add: us_per_minute_def)
    then show ?thesis by simp
  qed
  then show ?thesis by (simp add: sorted_iff_nth_Suc)
qed

lemma hd_dates: "hd dates = dates ! 0"
  by (simp add: hd_conv_nth dates_def)

lemma last_dates: "last dates = dates ! 369"
proof -
  have "dates \<noteq> []" using length_dates by auto
  then have "last dates = dates ! (length dates - 1)" by (rule last_conv_nth)
  then show ?thesis by (simp add: length_dates)
qed


section \<open>Dates of the sweep and of the marks\<close>

lemma mark_solstices_dates:
  "mark_solstices evs = Inr marks \<Longrightarrow>
   \<forall>(d, name) \<in> set marks. \<exists>(t, i) \<in> set evs. d = to_local (t div us_per_minute) div minutes_per_day"
proof (induction evs arbitrary: marks)
  case Nil
  then show ?case by simp
next
  case (Cons ev evs)
  obtain t i where ev: "ev = (t, i)" by (cases ev)
  from Cons.prems ev obtain event marks' where e: "py_index SEASON_EVENTS i = Inr event"
    and r: "mark_solstices evs = Inr marks'"
    by (auto split: sum.splits)
  from Cons.prems have m: "marks = (if contains (lower event) ''solstice''
                     then (to_local (t div us_per_minute) div minutes_per_day, event) # marks'
                     else marks')"
    by (auto simp add: ev e r split: if_splits)
  from Cons.IH [OF r] show ?case
    by (auto simp add: m ev)
qed

lemma local_date_in_seasons_window:
  assumes "seasons_t0 \<le> t" "t < seasons_t1"
  shows "days_from_civil 2022 1 1 \<le> to_local (t div us_per_minute) div minutes_per_day"
    and "to_local (t div us_per_minute) div minutes_per_day < days_from_civil 2022 12 31"
proof -
  let ?m = "t div us_per_minute"
  from assms have lo: "27349920 \<le> ?m" and hi: "?m < 27874080"
    unfolding instant_numbers us_per_minute_def
    by (auto intro: div_ge div_lt)
  have l: "?m \<le> to_local ?m" by (rule to_local_bounds)
  have u: "to_local ?m < 27874080"
    using hi by (simp add: to_local_def utcoffset_def minute_numbers)
  from l lo have "18993 * 1440 \<le> to_local ?m" by simp
  then show "days_from_civil 2022 1 1 \<le> to_local ?m div minutes_per_day"
    unfolding day_numbers minutes_per_day_def by (intro div_ge) simp_all
  from u have "to_local ?m < 19357 * 1440" by simp
  then show "to_local ?m div minutes_per_day < days_from_civil 2022 12 31"
    unfolding day_numbers minutes_per_day_def by (intro div_lt) simp_all
qed

section \<open>The sweep over an oracle of listed events\<close>

lemma record_events_valid:
  "\<forall>(t, e) \<in> set tes. TWILIGHTS e \<noteq> None \<Longrightarrow> record_events tes = Inr (map named tes)"
  by (induction tes) (auto simp add: named_def)

lemma filter_later_empty:
  "sorted (map fst evs) \<Longrightarrow> \<forall>x \<in> set evs. b < fst x \<Longrightarrow>
   filter (\<lambda>(t, e). a < t \<and> t \<le> (b::int)) evs = []"
  by (induction evs) auto

lemma filter_split_sorted:
  "sorted (map fst evs) \<Longrightarrow> a \<le> b \<Longrightarrow> b \<le> c \<Longrightarrow>
   filter (\<lambda>(t, e). a < t \<and> t \<le> b) evs @ filter (\<lambda>(t, e). b < t \<and> t \<le> c) evs =
   filter (\<lambda>(t, e). a < t \<and> t \<le> (c::int)) evs"
proof (induction evs)
  case Nil
  then show ?case by simp
next
  case (Cons ev evs)
  obtain t e where ev: "ev = (t, e)" by (cases ev)
  from Cons.prems have s: "sorted (map fst evs)" and later: "\<forall>x \<in> set evs. t \<le> fst x"
    by (auto simp add: ev)
  note IH = Cons.IH [OF s Cons.prems(2,3)]
  show ?case
  proof (cases "t \<le> b")
    case True
    with IH Cons.prems show ?thesis by (auto simp add: ev)
  next
    case False
    with later have "\<forall>x \<in> set evs. b < fst x" by fastforce
    from filter_later_empty [OF s this] have e1: "filter (\<lambda>(t, e). a < t \<and> t \<le> b) evs = []" .
    from IH e1 False Cons.prems show ?thesis by (auto simp add: ev)
  qed
qed

lemma sweep_events_between:
  assumes "sorted ds" "ds \<noteq> []" "sorted (map fst evs)" "\<forall>(t, e) \<in> set evs. TWILIGHTS e \<noteq> None"
  shows "sweep (events_between evs) ds =
         Inr (map named (filter (\<lambda>(t, e). hd ds < t \<and> t \<le> last ds) evs))"
  using assms(1,2)
proof (induction ds rule: induct_list012)
  case 1
  then show ?case by simp
next
  case (2 a)
  have "filter (\<lambda>(t, e). a < t \<and> t \<le> a) evs = []" by (induction evs) auto
  then show ?case by simp
next
  case (3 a b ds)
  from "3.prems" have sd: "sorted (b # ds)" and ab: "a \<le> b" by simp_all
  from sd have bl: "b \<le> last (b # ds)"
    by (metis last_in_set list.discI list.sel(1) set_ConsD sorted_simps(2) order_refl)
  have v: "\<forall>(t, e) \<in> set (events_between evs a b). TWILIGHTS e \<noteq> None"
    using assms(4) by (auto simp add: events_between_def)
  have r1: "record_events (events_between evs a b) = Inr (map named (events_between evs a b))"
    by (rule record_events_valid [OF v])
  from "3.IH"(2) [OF sd] have r2: "sweep (events_between evs) (b # ds) =
      Inr (map named (filter (\<lambda>(t, e). b < t \<and> t \<le> last (b # ds)) evs))" by simp
  have "sweep (events_between evs) (a # b # ds) =
      Inr (map named (events_between evs a b @ filter (\<lambda>(t, e). b < t \<and> t \<le> last (b # ds)) evs))"
    by (simp add: r1 r2)
  also have "events_between evs a b @ filter (\<lambda>(t, e). b < t \<and> t \<le> last (b # ds)) evs =
      filter (\<lambda>(t, e). a < t \<and> t \<le> last (b # ds)) evs"
    unfolding events_between_def by (rule filter_split_sorted [OF assms(3) ab bl])
  finally show ?case by simp
qed

lemma dates_ends: "dates ! 0 = 1640908800000000" "dates ! 369 = 1672790400000000"
  by (simp_all add: dates_nth local_midnight_def day_numbers minutes_per_day_def us_per_minute_def)

lemma all_records_events_between:
  assumes "sorted (map fst evs)"
    and "\<forall>(t, e) \<in> set evs. 1640908800000000 < t \<and> t \<le> 1672790400000000 \<and> TWILIGHTS e \<noteq> None"
  shows "all_records (events_between evs) = Inr (map named evs)"
proof -
  have ne: "dates \<noteq> []" using length_dates by auto
  from assms(2) have v: "\<forall>(t, e) \<in> set evs. TWILIGHTS e \<noteq> None" by auto
  have "filter (\<lambda>(t, e). hd dates < t \<and> t \<le> last dates) evs = evs"
    using assms(2) by (auto simp add: hd_dates last_dates dates_ends filter_id_conv)
  with sweep_events_between [OF sorted_dates ne assms(1) v] show ?thesis
    by (simp add: all_records_def)
qed


section \<open>Flooring, forward fill and resampling\<close>

lemma stage_rows_Inr:
  "stage_rows rs = Inr df \<Longrightarrow>
   df = map keyed rs \<and> (\<forall>(t, n, e) \<in> set rs. \<not> is_ambiguous (to_local (t div us_per_minute)))"
proof (induction rs arbitrary: df)
  case Nil
  then show ?case by simp
next
  case (Cons r rs)
  obtain t n e where r: "r = (t, n, e)" by (cases r)
  from Cons.prems r obtain m df' where f: "floor_1min t = Inr m"
    and d: "stage_rows rs = Inr df'"
    and df: "df = (m, \<lparr>StageStart = t, Stage = n, StageID = e\<rparr>) # df'"
    by (auto split: sum.splits)
  from f have m: "m = t div us_per_minute" "\<not> is_ambiguous (to_local (t div us_per_minute))"
    by (auto simp add: floor_1min_def Let_def split: if_splits)
  from Cons.IH [OF d] m show ?case by (simp add: df r keyed_def)
qed

lemma stage_rows_ok:
  "\<forall>(t, n, e) \<in> set rs. \<not> is_ambiguous (to_local (t div us_per_minute)) \<Longrightarrow>
   stage_rows rs = Inr (map keyed rs)"
  by (induction rs) (auto simp add: keyed_def floor_1min_def)

lemma asof_None:
  "sorted_wrt (<) (map fst s) \<Longrightarrow> asof s m = None \<Longrightarrow> \<forall>kv \<in> set s. m < fst kv"
proof (induction s)
  case Nil
  then show ?case by simp
next
  case (Cons kv s)
  obtain k v where kv: "kv = (k, v)" by (cases kv)
  from Cons.prems(2) have "m < k" by (auto simp add: kv split: if_splits option.splits)
  moreover from Cons.prems(1) have "\<forall>x \<in> set s. k < fst x" by (auto simp add: kv)
  ultimately show ?case by (auto simp add: kv)
qed

lemma asof_latest:
  "sorted_wrt (<) (map fst s) \<Longrightarrow> asof s m = Some v \<Longrightarrow> \<exists>k. latest s m (k, v)"
proof (induction s arbitrary: v)
  case Nil
  then show ?case by simp
next
  case (Cons kv s)
  obtain k v0 where kv: "kv = (k, v0)" by (cases kv)
  from Cons.prems(1) have s: "sorted_wrt (<) (map fst s)" and gt: "\<forall>x \<in> set s. k < fst x"
    by (auto simp add: kv)
  from Cons.prems(2) have km: "k \<le> m" by (auto simp add: kv split: if_splits)
  show ?case
  proof (cases "asof s m")
    case None
    with Cons.prems(2) km have v: "v = v0" by (simp add: kv)
    from asof_None [OF s None] have "\<forall>x \<in> set s. m < fst x" .
    with km have "latest (kv # s) m (k, v)"
      by (auto simp add: latest_def kv v)
    then show ?thesis ..
  next
    case (Some v')
    with Cons.prems(2) km have v: "v = v'" by (simp add: kv)
    from Cons.IH [OF s Some] obtain k' where l: "latest s m (k', v')" ..
    then have "k < k'" using gt by (auto simp add: latest_def)
    with l have "latest (kv # s) m (k', v)"
      by (auto simp add: latest_def kv v)
    then show ?thesis ..
  qed
qed

lemma asof_defined: "s \<noteq> [] \<Longrightarrow> fst (hd s) \<le> m \<Longrightarrow> \<exists>v. asof s m = Some v"
  by (cases s) (auto split: option.splits)

lemma latest_unique:
  "distinct (map fst df) \<Longrightarrow> latest df m kv \<Longrightarrow> latest df m kv' \<Longrightarrow> kv = kv'"
proof -
  assume d: "distinct (map fst df)" and a: "latest df m kv" and b: "latest df m kv'"
  from a b have "fst kv = fst kv'" by (auto simp add: latest_def intro: antisym)
  moreover from a b have "kv \<in> set df" "kv' \<in> set df" by (simp_all add: latest_def)
  moreover from d have "inj_on fst (set df)" by (simp add: distinct_map)
  ultimately show ?thesis by (auto dest: inj_onD)
qed

lemma latest_set_cong: "set df = set df' \<Longrightarrow> latest df m kv = latest df' m kv"
  by (simp add: latest_def)

lemma sorted_hd_Min:
  "sorted (map fst s) \<Longrightarrow> s \<noteq> [] \<Longrightarrow> fst (hd s) = Min (fst ` set s)"
proof -
  assume s: "sorted (map fst s)" and ne: "s \<noteq> []"
  then obtain kv s' where c: "s = kv # s'" by (cases s) auto
  with s have "\<forall>y \<in> fst ` set s. fst kv \<le> y" by auto
  then have "Min (fst ` set s) = fst kv"
    by (intro Min_eqI) (auto simp add: c)
  then show ?thesis by (simp add: c)
qed

lemma sorted_le_last: "sorted xs \<Longrightarrow> y \<in> set xs \<Longrightarrow> y \<le> last (xs :: 'a::linorder list)"
  by (induction xs) auto

lemma sorted_last_Max:
  "sorted (map fst s) \<Longrightarrow> s \<noteq> [] \<Longrightarrow> fst (last s) = Max (fst ` set s)"
proof -
  assume s: "sorted (map fst s)" and ne: "s \<noteq> []"
  have l: "fst (last s) = last (map fst s)" using ne by (simp add: last_map)
  have "\<forall>y \<in> set (map fst s). y \<le> last (map fst s)"
    using s by (blast intro: sorted_le_last)
  then have "Max (fst ` set s) = last (map fst s)"
    using ne by (intro Max_eqI) (auto simp add: l [symmetric])
  with l show ?thesis by simp
qed

lemma resample_ffill_Inr:
  assumes "resample_ffill df = Inr ms" "df \<noteq> []"
  shows "distinct (map fst df) \<and>
         ms = map (\<lambda>m. (m, asof (sort_key fst df) m)) [Min (fst ` set df) .. Max (fst ` set df)]"
proof -
  let ?s = "sort_key fst df"
  from assms(2) have ne: "?s \<noteq> []" by (metis length_sort length_0_conv)
  have srt: "sorted (map fst ?s)" by (rule sorted_sort_key)
  from assms ne have d: "distinct (map fst ?s)"
    and ms: "ms = map (\<lambda>m. (m, asof ?s m)) [fst (hd ?s) .. fst (last ?s)]"
    by (auto simp add: resample_ffill_def Let_def split: if_splits)
  from d have "distinct (map fst df)"
    by (metis distinct_map distinct_sort set_sort)
  moreover have "fst (hd ?s) = Min (fst ` set df)" "fst (last ?s) = Max (fst ` set df)"
    using sorted_hd_Min [OF srt ne] sorted_last_Max [OF srt ne] by simp_all
  ultimately show ?thesis using ms by simp
qed

lemma resample_ffill_ok:
  assumes "distinct (map fst df)" "df \<noteq> []"
  shows "resample_ffill df =
     Inr (map (\<lambda>m. (m, asof (sort_key fst df) m)) [Min (fst ` set df) .. Max (fst ` set df)])"
proof -
  let ?s = "sort_key fst df"
  from assms(2) have ne: "?s \<noteq> []" by (metis length_sort length_0_conv)
  have srt: "sorted (map fst ?s)" by (rule sorted_sort_key)
  from assms(1) have d: "distinct (map fst ?s)"
    by (metis distinct_map distinct_sort set_sort)
  have "fst (hd ?s) = Min (fst ` set df)" "fst (last ?s) = Max (fst ` set df)"
    using sorted_hd_Min [OF srt ne] sorted_last_Max [OF srt ne] by simp_all
  with d ne show ?thesis by (simp add: resample_ffill_def Let_def)
qed

lemma asof_sorted_latest:
  assumes d: "distinct (map fst df)" and ne: "df \<noteq> []" and lo: "Min (fst ` set df) \<le> m"
  shows "\<exists>kv. asof (sort_key fst df) m = Some (snd kv) \<and> latest df m kv"
proof -
  let ?s = "sort_key fst df"
  from ne have sne: "?s \<noteq> []" by (metis length_sort length_0_conv)
  have srt: "sorted (map fst ?s)" by (rule sorted_sort_key)
  from d have ds: "distinct (map fst ?s)" by (metis distinct_map distinct_sort set_sort)
  from srt ds have ss: "sorted_wrt (<) (map fst ?s)" by (simp add: strict_sorted_iff)
  from sorted_hd_Min [OF srt sne] lo have "fst (hd ?s) \<le> m" by simp
  from asof_defined [OF sne this] obtain v where v: "asof ?s m = Some v" ..
  from asof_latest [OF ss v] obtain k where "latest ?s m (k, v)" ..
  then have "latest df m (k, v)" by (simp add: latest_def)
  with v show ?thesis by (intro exI [of _ "(k, v)"]) simp
qed


section \<open>The expanded table\<close>

lemma keyed_eq: "keyed r = (floored r, row_of r)"
  by (simp add: floored_def row_of_def)

lemma map_fst_keyed: "map fst (map keyed rs) = map floored rs"
  by (induction rs) (simp_all add: floored_def)

lemma floors_image: "fst ` set (map keyed rs) = floored ` set rs"
  by (auto simp add: floored_def image_iff)

lemma expand_Inr:
  assumes "expand rs = Inr rows"
  shows "rs \<noteq> [] \<and> (\<forall>(t, n, e) \<in> set rs. \<not> is_ambiguous (to_local (t div us_per_minute))) \<and>
         distinct (map floored rs) \<and>
         rows = map (\<lambda>m. minute_of (m, asof (sort_key fst (map keyed rs)) m))
                  [Min (floored ` set rs) .. Max (floored ` set rs)]"
proof -
  from assms obtain df ms where a: "all_stages_of rs = Inr df"
    and r: "resample_ffill df = Inr ms" and rows: "rows = map minute_of ms"
    by (auto simp add: expand_def split: sum.splits)
  from a have ne: "rs \<noteq> []" and sr: "stage_rows rs = Inr df"
    by (auto simp add: all_stages_of_def split: if_splits)
  from stage_rows_Inr [OF sr] have df: "df = map keyed rs"
    and amb: "\<forall>(t, n, e) \<in> set rs. \<not> is_ambiguous (to_local (t div us_per_minute))"
    by simp_all
  from ne df have dne: "df \<noteq> []" by simp
  from resample_ffill_Inr [OF r dne]
  have d: "distinct (map fst df)"
    and ms: "ms = map (\<lambda>m. (m, asof (sort_key fst df) m)) [Min (fst ` set df) .. Max (fst ` set df)]"
    by simp_all
  from d have "distinct (map floored rs)"
    by (simp only: df map_fst_keyed)
  moreover have "rows = map (\<lambda>m. minute_of (m, asof (sort_key fst (map keyed rs)) m))
                  [Min (floored ` set rs) .. Max (floored ` set rs)]"
    unfolding rows ms df floors_image by (simp add: o_def)
  ultimately show ?thesis using ne amb by simp
qed

lemma expand_ok:
  assumes "rs \<noteq> []" "\<forall>(t, n, e) \<in> set rs. \<not> is_ambiguous (to_local (t div us_per_minute))"
    "distinct (map floored rs)"
  shows "expand rs = Inr (map (\<lambda>m. minute_of (m, asof (sort_key fst (map keyed rs)) m))
                  [Min (floored ` set rs) .. Max (floored ` set rs)])"
proof -
  from assms(1,2) have a: "all_stages_of rs = Inr (map keyed rs)"
    by (simp add: all_stages_of_def stage_rows_ok)
  from assms(3) have d: "distinct (map fst (map keyed rs))" by (simp only: map_fst_keyed)
  from assms(1) have ne: "map keyed rs \<noteq> []" by simp
  from resample_ffill_ok [OF d ne] a show ?thesis
    unfolding floors_image by (simp add: expand_def o_def)
qed

lemma expand_row:
  assumes e: "expand rs = Inr rows" and r: "r \<in> set rows"
  shows "Min (floored ` set rs) \<le> DateTime r \<and> DateTime r \<le> Max (floored ` set rs) \<and>
         Date r = to_local (DateTime r) div minutes_per_day \<and>
         Time r = to_local (DateTime r) mod minutes_per_day \<and>
         (\<exists>ev \<in> set rs. filled r = Some (row_of ev) \<and> latest (map keyed rs) (DateTime r) (keyed ev))"
proof -
  from expand_Inr [OF e] have ne: "rs \<noteq> []" and d: "distinct (map floored rs)"
    and rows: "rows = map (\<lambda>m. minute_of (m, asof (sort_key fst (map keyed rs)) m))
                  [Min (floored ` set rs) .. Max (floored ` set rs)]"
    by simp_all
  let ?df = "map keyed rs"
  from r rows obtain m where m: "Min (floored ` set rs) \<le> m" "m \<le> Max (floored ` set rs)"
    and rm: "r = minute_of (m, asof (sort_key fst ?df) m)"
    by auto
  from d have dd: "distinct (map fst ?df)" by (simp only: map_fst_keyed)
  from ne have dne: "?df \<noteq> []" by simp
  from m(1) have "Min (fst ` set ?df) \<le> m" unfolding floors_image .
  from asof_sorted_latest [OF dd dne this] obtain kv
    where kv: "asof (sort_key fst ?df) m = Some (snd kv)" "latest ?df m kv" by blast
  from kv(2) obtain ev where ev: "ev \<in> set rs" "kv = keyed ev"
    by (auto simp add: latest_def)
  have "filled r = Some (row_of ev) \<and> latest ?df (DateTime r) (keyed ev)"
    using kv ev by (simp add: rm minute_of_def row_of_def)
  with ev(1) m show ?thesis by (auto simp add: rm minute_of_def)
qed

lemma expand_minutes:
  assumes e: "expand rs = Inr rows"
  shows "map DateTime rows = [Min (floored ` set rs) .. Max (floored ` set rs)]"
proof -
  from expand_Inr [OF e]
  have "rows = map (\<lambda>m. minute_of (m, asof (sort_key fst (map keyed rs)) m))
                  [Min (floored ` set rs) .. Max (floored ` set rs)]" by simp
  then have "map DateTime rows = map (\<lambda>m. m) [Min (floored ` set rs) .. Max (floored ` set rs)]"
    by (simp add: minute_of_def o_def)
  then show ?thesis by simp
qed

section \<open>The table of the year\<close>

lemma year_minutes: "year_first_minute = 27349920" "year_last_minute = 27875519"
  by (simp_all add: year_first_minute_def year_last_minute_def minute_numbers)

lemma in_window_year:
  "in_window r \<longleftrightarrow> year_first_minute \<le> DateTime r \<and> DateTime r \<le> year_last_minute"
  by (simp add: in_window_iff year_minutes)

lemma filter_upto:
  "filter (\<lambda>m. a \<le> m \<and> m \<le> b) [lo..hi] = [max lo a .. min hi b]"
proof (rule sorted_distinct_set_unique)
  show "sorted (filter (\<lambda>m. a \<le> m \<and> m \<le> b) [lo..hi])" by (rule sorted_wrt_filter) simp
  show "distinct (filter (\<lambda>m. a \<le> m \<and> m \<le> b) [lo..hi])" by simp
  show "sorted [max lo a .. min hi b]" by simp
  show "distinct [max lo a .. min hi b]" by simp
  show "set (filter (\<lambda>m. a \<le> m \<and> m \<le> b) [lo..hi]) = set [max lo a .. min hi b]" by auto
qed

lemma upto_ends: "i \<le> j \<Longrightarrow> [i..j] \<noteq> [] \<and> hd [i..j] = i \<and> last [i..j] = j"
proof -
  assume le: "i \<le> j"
  then have "[i..j] = i # [i + 1..j]" by (rule upto_rec1)
  moreover from le have "[i..j] = [i..j - 1] @ [j]" by (rule upto_rec2)
  ultimately show ?thesis by (metis hd_Cons_tl last_snoc list.discI list.sel(1))
qed

lemma DateTime_minute_of: "DateTime (minute_of (m, v)) = m"
  by (simp add: minute_of_def)

lemma all_minutes_of_Inr:
  assumes "all_minutes_of rs = Inr ms"
  shows "(\<exists>rows. expand rs = Inr rows \<and> ms = filter in_window rows) \<and>
         ms = map (\<lambda>m. minute_of (m, asof (sort_key fst (map keyed rs)) m))
                [max (Min (floored ` set rs)) year_first_minute .. min (Max (floored ` set rs)) year_last_minute]"
proof -
  from assms obtain rows where e: "expand rs = Inr rows" and ms: "ms = filter in_window rows"
    by (auto simp add: all_minutes_of_def split: sum.splits)
  let ?g = "\<lambda>m. minute_of (m, asof (sort_key fst (map keyed rs)) m)"
  from expand_Inr [OF e] have rows: "rows = map ?g [Min (floored ` set rs) .. Max (floored ` set rs)]"
    by simp
  have "filter in_window (map ?g [Min (floored ` set rs) .. Max (floored ` set rs)]) =
        map ?g (filter (\<lambda>m. year_first_minute \<le> m \<and> m \<le> year_last_minute) [Min (floored ` set rs) .. Max (floored ` set rs)])"
    by (simp add: filter_map o_def in_window_year DateTime_minute_of)
  then have "ms = map ?g [max (Min (floored ` set rs)) year_first_minute .. min (Max (floored ` set rs)) year_last_minute]"
    unfolding ms rows filter_upto by simp
  with e ms show ?thesis by blast
qed

lemma all_minutes_of_minutes:
  assumes "all_minutes_of rs = Inr ms"
  shows "map DateTime ms =
     [max (Min (floored ` set rs)) year_first_minute .. min (Max (floored ` set rs)) year_last_minute]"
proof -
  from all_minutes_of_Inr [OF assms]
  have "ms = map (\<lambda>m. minute_of (m, asof (sort_key fst (map keyed rs)) m))
                [max (Min (floored ` set rs)) year_first_minute .. min (Max (floored ` set rs)) year_last_minute]"
    by simp
  then have "map DateTime ms = map (\<lambda>m. m)
      [max (Min (floored ` set rs)) year_first_minute .. min (Max (floored ` set rs)) year_last_minute]"
    by (simp add: o_def DateTime_minute_of)
  then show ?thesis by simp
qed

lemma all_minutes_of_row:
  assumes a: "all_minutes_of rs = Inr ms" and r: "r \<in> set ms"
  shows "year_first_minute \<le> DateTime r \<and> DateTime r \<le> year_last_minute \<and>
         Date r = to_local (DateTime r) div minutes_per_day \<and>
         Time r = to_local (DateTime r) mod minutes_per_day \<and>
         (\<exists>ev \<in> set rs. filled r = Some (row_of ev) \<and> latest (map keyed rs) (DateTime r) (keyed ev))"
proof -
  from all_minutes_of_Inr [OF a] obtain rows where e: "expand rs = Inr rows"
    and ms: "ms = filter in_window rows" by blast
  from r ms have "r \<in> set rows" "in_window r" by simp_all
  with expand_row [OF e] show ?thesis by (simp add: in_window_year)
qed

lemma all_minutes_of_ok:
  assumes "rs \<noteq> []" "\<forall>(t, n, e) \<in> set rs. \<not> is_ambiguous (to_local (t div us_per_minute))"
    "distinct (map floored rs)"
  shows "\<exists>ms. all_minutes_of rs = Inr ms"
  using expand_ok [OF assms] by (simp add: all_minutes_of_def)

lemma TWILIGHTS_Some: "TWILIGHTS e = Some n \<Longrightarrow> 0 \<le> e \<and> e \<le> 4"
  by (auto simp add: TWILIGHTS_def split: if_splits)

lemma all_records_valid:
  assumes "all_records f = Inr rs" "(t, n, e) \<in> set rs"
  shows "TWILIGHTS e = Some n \<and> 0 \<le> e \<and> e \<le> 4"
proof -
  from assms(1) have "sweep f dates = Inr rs" by (simp add: all_records_def)
  from sweep_events [OF this] assms(2) have "TWILIGHTS e = Some n" by auto
  with TWILIGHTS_Some show ?thesis by blast
qed

lemma StageID_row_of: "StageID (row_of (t, n, e)) = e" "Stage (row_of (t, n, e)) = n"
  "StageStart (row_of (t, n, e)) = t" "floored (t, n, e) = t div us_per_minute"
  by (simp_all add: row_of_def floored_def keyed_def)

lemma padding_day: "dates ! 0 + 1440 * us_per_minute = window_start"
  by (simp add: dates_ends instant_numbers us_per_minute_def)

section \<open>The example runs\<close>

lemma local_midnight_on_the_hour:
  "local_midnight d * us_per_minute = 3600000000 * (24 * d - 1) \<or>
   local_midnight d * us_per_minute = 3600000000 * (24 * d)"
  by (simp add: local_midnight_def minutes_per_day_def us_per_minute_def)

lemma dates_on_the_hour: "b \<in> set dates \<Longrightarrow> b mod 3600000000 = 0"
proof -
  assume "b \<in> set dates"
  then obtain d where "b = local_midnight d * us_per_minute"
    by (auto simp add: dates_def)
  with local_midnight_on_the_hour [of d] show ?thesis by auto
qed

lemma events_between_contract:
  assumes "sorted (map fst evs)" and "\<forall>(t, e) \<in> set evs. t mod 3600000000 \<noteq> 0"
  shows "\<forall>(a, b) \<in> set (zip dates (tl dates)).
           sorted (map fst (events_between evs a b)) \<and>
           (\<forall>(t, e) \<in> set (events_between evs a b). a < t \<and> t < b)"
proof (intro ballI, clarify, intro conjI ballI)
  fix a b assume ab: "(a, b) \<in> set (zip dates (tl dates))"
  show "sorted (map fst (events_between evs a b))"
    unfolding events_between_def using assms(1) by (rule sorted_filter)
  fix te assume te: "te \<in> set (events_between evs a b)"
  obtain t e where p: "te = (t, e)" by (cases te)
  from ab have "b \<in> set (tl dates)" by (rule set_zip_rightD)
  then have "b \<in> set dates" by (metis list.sel(2) list.set_sel(2))
  then have "b mod 3600000000 = 0" by (rule dates_on_the_hour)
  moreover from te assms(2) have "t mod 3600000000 \<noteq> 0" "a < t" "t \<le> b"
    by (auto simp add: events_between_def p)
  ultimately have "a < t \<and> t < b" by (cases "t = b") auto
  then show "case te of (t, e) \<Rightarrow> a < t \<and> t < b" by (simp add: p)
qed

lemma year_run:
  "all_records (events_between year_events) = Inr (map named year_events)"
  by (rule all_records_events_between) (simp_all add: year_events_def TWILIGHTS_def)

lemma noon_run:
  "all_records (events_between noon_events) = Inr (map named noon_events)"
  by (rule all_records_events_between) (simp_all add: noon_events_def TWILIGHTS_def)


lemma polar_run:
  "all_records (events_between polar_events) = Inr (map named polar_events)"
  by (rule all_records_events_between) (simp_all add: polar_events_def TWILIGHTS_def)

lemma year_records:
  "map named year_events =
     [(1640973630000000, ''Night'', 0),
      (1672468270000000, ''Astronomical twilight'', 1), (1672470940000000, ''Nautical twilight'', 2),
      (1672473725000000, ''Civil twilight'', 3), (1672476230000000, ''Day'', 4),
      (1672501695000000, ''Civil twilight'', 3), (1672504230000000, ''Nautical twilight'', 2),
      (1672507005000000, ''Astronomical twilight'', 1), (1672509680000000, ''Night'', 0),
      (1672554675000000, ''Astronomical twilight'', 1)]"
  by (simp add: year_events_def named_def TWILIGHTS_def)

lemma noon_records:
  "map named noon_events =
     [(1641038105000000, ''Night'', 0), (1641038170000000, ''Astronomical twilight'', 1),
      (1641038240000000, ''Nautical twilight'', 2), (1641038310000000, ''Civil twilight'', 3),
      (1641038380000000, ''Day'', 4), (1641038465000000, ''Civil twilight'', 3),
      (1641038530000000, ''Nautical twilight'', 2), (1641038600000000, ''Astronomical twilight'', 1),
      (1641038670000000, ''Night'', 0)]"
  by (simp add: noon_events_def named_def TWILIGHTS_def)

lemma flicker_records:
  "map named flicker_events =
     [(1640995110000000, ''Night'', 0), (1640995330000000, ''Astronomical twilight'', 1),
      (1640995460000000, ''Night'', 0), (1640995600000000, ''Astronomical twilight'', 1),
      (1640995695000000, ''Nautical twilight'', 2)]"
  by (simp add: flicker_events_def named_def TWILIGHTS_def)

lemma polar_records:
  "map named polar_events =
     [(1641024030000000, ''Astronomical twilight'', 1), (1641024190000000, ''Night'', 0)]"
  by (simp add: polar_events_def named_def TWILIGHTS_def)

lemma year_floors:
  "map floored (map named year_events) =
     [27349560, 27874471, 27874515, 27874562, 27874603, 27875028, 27875070, 27875116, 27875161,
      27875911]"
  by (simp add: year_records floored_def keyed_def us_per_minute_def)

lemma not_ambiguous_iff:
  "is_ambiguous (to_local m) \<longleftrightarrow> bst_end - 60 \<le> m \<and> m < bst_end + 60"
  by (auto simp add: is_ambiguous_def to_local_def utcoffset_def minute_numbers)

lemma year_minutes_exist:
  "\<exists>ms. all_minutes (events_between year_events) = Inr ms"
proof -
  have ne: "map named year_events \<noteq> []" by (simp add: year_records)
  have amb: "\<forall>(t, n, e) \<in> set (map named year_events).
      \<not> is_ambiguous (to_local (t div us_per_minute))"
    unfolding year_records not_ambiguous_iff
    by (simp add: us_per_minute_def minute_numbers)
  have d: "distinct (map floored (map named year_events))"
    unfolding year_floors by simp
  from all_minutes_of_ok [OF ne amb d] show ?thesis
    by (simp add: all_minutes_def year_run)
qed

lemma year_bracket:
  "(\<exists>(t, n, e) \<in> set (map named year_events). t div us_per_minute \<le> utc_minute 2022 1 1 0 0) \<and>
   (\<exists>(t, n, e) \<in> set (map named year_events). utc_minute 2022 12 31 23 59 \<le> t div us_per_minute)"
  unfolding year_records by (simp add: us_per_minute_def minute_numbers)

section \<open>Local time and the pivot\<close>

lemma to_local_same:
  "to_local m1 = to_local m2 \<Longrightarrow> m1 \<le> m2 \<Longrightarrow>
   m1 = m2 \<or> (m2 = m1 + 60 \<and> bst_end - 60 \<le> m1 \<and> m1 < bst_end)"
  by (auto simp add: to_local_def utcoffset_def minute_numbers split: if_splits)

lemma to_local_onto:
  "\<not> is_nonexistent w \<Longrightarrow>
   to_local (if bst_start + 60 \<le> w \<and> w < bst_end + 60 then w - 60 else w) = w"
  by (auto simp add: is_nonexistent_def to_local_def utcoffset_def minute_numbers)

lemma to_local_exists: "\<not> is_nonexistent (to_local m)"
  by (auto simp add: is_nonexistent_def to_local_def utcoffset_def minute_numbers)

lemma local_time_of_row:
  "Date r = to_local (DateTime r) div minutes_per_day \<Longrightarrow>
   Time r = to_local (DateTime r) mod minutes_per_day \<Longrightarrow>
   to_local (DateTime r) = Date r * minutes_per_day + Time r"
  by simp

lemma valued_iff:
  "(t, d, v) \<in> set (valued ms) \<longleftrightarrow>
   (\<exists>r \<in> set ms. \<exists>s. filled r = Some s \<and> t = Time r \<and> d = Date r \<and> v = StageID s)"
proof
  assume "(t, d, v) \<in> set (valued ms)"
  then obtain r where r: "r \<in> set ms"
    and m: "(t, d, v) \<in> set (case filled r of None \<Rightarrow> [] | Some s \<Rightarrow> [(Time r, Date r, StageID s)])"
    by (auto simp add: valued_def)
  from m obtain s where "filled r = Some s" "t = Time r" "d = Date r" "v = StageID s"
    by (cases "filled r") auto
  with r show "\<exists>r \<in> set ms. \<exists>s. filled r = Some s \<and> t = Time r \<and> d = Date r \<and> v = StageID s"
    by blast
next
  assume "\<exists>r \<in> set ms. \<exists>s. filled r = Some s \<and> t = Time r \<and> d = Date r \<and> v = StageID s"
  then obtain r s where r: "r \<in> set ms" "filled r = Some s" "t = Time r" "d = Date r" "v = StageID s"
    by blast
  then have "(t, d, v) \<in> set (case filled r of None \<Rightarrow> [] | Some s \<Rightarrow> [(Time r, Date r, StageID s)])"
    by simp
  with r(1) show "(t, d, v) \<in> set (valued ms)"
    unfolding valued_def by (auto intro!: bexI [of _ r])
qed

lemma mean_const:
  assumes "xs \<noteq> []" and "\<forall>x \<in> set xs. x = v"
  shows "mean xs = of_int v"
proof -
  from assms(2) have "sum_list xs = int (length xs) * v"
    by (induction xs) (auto simp add: algebra_simps)
  moreover from assms(1) have "length xs \<noteq> 0" by simp
  ultimately show ?thesis by (simp add: mean_def)
qed

lemma cell_None_iff:
  "cell vs t d = None \<longleftrightarrow> \<not> (\<exists>v. (t, d, v) \<in> set vs)"
  by (auto simp add: cell_def Let_def filter_empty_conv)

lemma cell_const:
  assumes "cell vs t d = Some q" and "\<forall>v. (t, d, v) \<in> set vs \<longrightarrow> v = w"
  shows "q = of_int w"
proof -
  let ?xs = "map (\<lambda>(t', d', v). v) (filter (\<lambda>(t', d', v). t' = t \<and> d' = d) vs)"
  from assms(1) have ne: "?xs \<noteq> []" and q: "q = mean ?xs"
    by (auto simp add: cell_def Let_def split: if_splits)
  from assms(2) have "\<forall>x \<in> set ?xs. x = w" by auto
  from mean_const [OF ne this] q show ?thesis by simp
qed

lemma pivot_table_cells:
  "row \<in> set (cells (pivot_table ms)) \<Longrightarrow> c \<in> set row \<Longrightarrow>
   \<exists>t d. c = cell (valued ms) t d"
proof -
  assume "row \<in> set (cells (pivot_table ms))" "c \<in> set row"
  then obtain t d where "c = cell (valued ms) t d"
    by (auto simp add: pivot_table_def Let_def)
  then show ?thesis by blast
qed

lemma same_slot_same_fill:
  assumes a: "all_minutes_of rs = Inr ms"
    and r1: "r1 \<in> set ms" and r2: "r2 \<in> set ms"
    and le: "DateTime r1 \<le> DateTime r2"
    and same: "Date r1 = Date r2" "Time r1 = Time r2"
  shows "filled r1 = filled r2"
proof -
  from all_minutes_of_Inr [OF a] obtain rows where e: "expand rs = Inr rows" by blast
  from expand_Inr [OF e] have d: "distinct (map floored rs)"
    and amb: "\<forall>(t, n, e) \<in> set rs. \<not> is_ambiguous (to_local (t div us_per_minute))"
    by simp_all
  from d have dd: "distinct (map fst (map keyed rs))" by (simp only: map_fst_keyed)
  note row1 = all_minutes_of_row [OF a r1] and row2 = all_minutes_of_row [OF a r2]
  from row1 obtain ev1 where ev1: "ev1 \<in> set rs"
    "filled r1 = Some (row_of ev1)" "latest (map keyed rs) (DateTime r1) (keyed ev1)"
    by blast
  from row2 obtain ev2 where ev2: "ev2 \<in> set rs"
    "filled r2 = Some (row_of ev2)" "latest (map keyed rs) (DateTime r2) (keyed ev2)"
    by blast
  from row1 have l1: "to_local (DateTime r1) = Date r1 * minutes_per_day + Time r1"
    by (intro local_time_of_row) blast+
  from row2 have l2: "to_local (DateTime r2) = Date r2 * minutes_per_day + Time r2"
    by (intro local_time_of_row) blast+
  from l1 l2 same have "to_local (DateTime r1) = to_local (DateTime r2)" by simp
  from to_local_same [OF this le]
  have c: "DateTime r1 = DateTime r2 \<or>
     (DateTime r2 = DateTime r1 + 60 \<and> bst_end - 60 \<le> DateTime r1 \<and> DateTime r1 < bst_end)" .
  have "latest (map keyed rs) (DateTime r1) (keyed ev2)"
  proof (cases "DateTime r1 = DateTime r2")
    case True
    with ev2(3) show ?thesis by simp
  next
    case False
    with c have j: "DateTime r2 = DateTime r1 + 60" "bst_end - 60 \<le> DateTime r1"
      "DateTime r1 < bst_end" by simp_all
    obtain t n e where tne: "ev2 = (t, n, e)" by (cases ev2)
    from amb ev2(1) have "\<not> is_ambiguous (to_local (t div us_per_minute))"
      by (auto simp add: tne)
    then have na: "\<not> (bst_end - 60 \<le> fst (keyed ev2) \<and> fst (keyed ev2) < bst_end + 60)"
      by (simp add: not_ambiguous_iff tne keyed_def)
    from ev2(3) have "fst (keyed ev2) \<le> DateTime r2" by (simp add: latest_def)
    with na j have k: "fst (keyed ev2) \<le> DateTime r1" by linarith
    from ev2(3) have in2: "keyed ev2 \<in> set (map keyed rs)"
      and mx: "\<forall>kv' \<in> set (map keyed rs). fst kv' \<le> DateTime r2 \<longrightarrow> fst kv' \<le> fst (keyed ev2)"
      by (simp_all add: latest_def)
    have "\<forall>kv' \<in> set (map keyed rs). fst kv' \<le> DateTime r1 \<longrightarrow> fst kv' \<le> fst (keyed ev2)"
    proof (intro ballI impI)
      fix kv' assume "kv' \<in> set (map keyed rs)" "fst kv' \<le> DateTime r1"
      with le have "kv' \<in> set (map keyed rs)" "fst kv' \<le> DateTime r2" by simp_all
      with mx show "fst kv' \<le> fst (keyed ev2)" by blast
    qed
    with in2 k show ?thesis by (simp add: latest_def)
  qed
  from latest_unique [OF dd ev1(3) this] have "keyed ev1 = keyed ev2" .
  then have "row_of ev1 = row_of ev2" by (simp add: row_of_def)
  with ev1(2) ev2(2) show ?thesis by simp
qed

lemma slot_single_phase:
  assumes a: "all_minutes_of rs = Inr ms"
    and v1: "(t, d, v1) \<in> set (valued ms)" and v2: "(t, d, v2) \<in> set (valued ms)"
  shows "v1 = v2"
proof -
  from v1 obtain r1 s1 where r1: "r1 \<in> set ms" "filled r1 = Some s1" "t = Time r1" "d = Date r1"
    "v1 = StageID s1" unfolding valued_iff by blast
  from v2 obtain r2 s2 where r2: "r2 \<in> set ms" "filled r2 = Some s2" "t = Time r2" "d = Date r2"
    "v2 = StageID s2" unfolding valued_iff by blast
  have s: "Date r1 = Date r2" "Time r1 = Time r2" "Date r2 = Date r1" "Time r2 = Time r1"
    using r1 r2 by simp_all
  have "filled r1 = filled r2"
  proof (cases "DateTime r1 \<le> DateTime r2")
    case True
    from same_slot_same_fill [OF a r1(1) r2(1) True s(1,2)] show ?thesis .
  next
    case False
    then have "DateTime r2 \<le> DateTime r1" by simp
    from same_slot_same_fill [OF a r2(1) r1(1) this s(3,4)] show ?thesis by simp
  qed
  with r1 r2 show ?thesis by simp
qed

section \<open>The short runs, evaluated\<close>

lemma noon_minutes:
  "all_minutes (events_between noon_events) =
     Inr [\<lparr>DateTime = 27350635, filled = Some \<lparr>StageStart = 1641038105000000, Stage = ''Night'', StageID = 0\<rparr>,
           Date = 18993, Time = 715\<rparr>,
          \<lparr>DateTime = 27350636, filled = Some \<lparr>StageStart = 1641038170000000, Stage = ''Astronomical twilight'', StageID = 1\<rparr>,
           Date = 18993, Time = 716\<rparr>,
          \<lparr>DateTime = 27350637, filled = Some \<lparr>StageStart = 1641038240000000, Stage = ''Nautical twilight'', StageID = 2\<rparr>,
           Date = 18993, Time = 717\<rparr>,
          \<lparr>DateTime = 27350638, filled = Some \<lparr>StageStart = 1641038310000000, Stage = ''Civil twilight'', StageID = 3\<rparr>,
           Date = 18993, Time = 718\<rparr>,
          \<lparr>DateTime = 27350639, filled = Some \<lparr>StageStart = 1641038380000000, Stage = ''Day'', StageID = 4\<rparr>,
           Date = 18993, Time = 719\<rparr>,
          \<lparr>DateTime = 27350640, filled = Some \<lparr>StageStart = 1641038380000000, Stage = ''Day'', StageID = 4\<rparr>,
           Date = 18993, Time = 720\<rparr>,
          \<lparr>DateTime = 27350641, filled = Some \<lparr>StageStart = 1641038465000000, Stage = ''Civil twilight'', StageID = 3\<rparr>,
           Date = 18993, Time = 721\<rparr>,
          \<lparr>DateTime = 27350642, filled = Some \<lparr>StageStart = 1641038530000000, Stage = ''Nautical twilight'', StageID = 2\<rparr>,
           Date = 18993, Time = 722\<rparr>,
          \<lparr>DateTime = 27350643, filled = Some \<lparr>StageStart = 1641038600000000, Stage = ''Astronomical twilight'', StageID = 1\<rparr>,
           Date = 18993, Time = 723\<rparr>,
          \<lparr>DateTime = 27350644, filled = Some \<lparr>StageStart = 1641038670000000, Stage = ''Night'', StageID = 0\<rparr>,
           Date = 18993, Time = 724\<rparr>]"
  unfolding all_minutes_def noon_run noon_records
  by (simp add: all_minutes_of_def expand_def all_stages_of_def floor_1min_def is_ambiguous_def
      to_local_def utcoffset_def minute_numbers resample_ffill_def minute_of_def
      us_per_minute_def minutes_per_day_def in_window_iff upto.simps)


lemma polar_minutes:
  "all_minutes (events_between polar_events) =
     Inr [\<lparr>DateTime = 27350400, filled = Some \<lparr>StageStart = 1641024030000000, Stage = ''Astronomical twilight'', StageID = 1\<rparr>,
           Date = 18993, Time = 480\<rparr>,
          \<lparr>DateTime = 27350401, filled = Some \<lparr>StageStart = 1641024030000000, Stage = ''Astronomical twilight'', StageID = 1\<rparr>,
           Date = 18993, Time = 481\<rparr>,
          \<lparr>DateTime = 27350402, filled = Some \<lparr>StageStart = 1641024030000000, Stage = ''Astronomical twilight'', StageID = 1\<rparr>,
           Date = 18993, Time = 482\<rparr>,
          \<lparr>DateTime = 27350403, filled = Some \<lparr>StageStart = 1641024190000000, Stage = ''Night'', StageID = 0\<rparr>,
           Date = 18993, Time = 483\<rparr>]"
  unfolding all_minutes_def polar_run polar_records
  by (simp add: all_minutes_of_def expand_def all_stages_of_def floor_1min_def is_ambiguous_def
      to_local_def utcoffset_def minute_numbers resample_ffill_def minute_of_def
      us_per_minute_def minutes_per_day_def in_window_iff upto.simps)

section \<open>The grid of a whole year\<close>

lemma bracket_minutes:
  assumes a: "all_minutes_of rs = Inr ms"
    and lo: "\<exists>ev \<in> set rs. floored ev \<le> year_first_minute"
    and hi: "\<exists>ev \<in> set rs. year_last_minute \<le> floored ev"
  shows "map DateTime ms = [year_first_minute .. year_last_minute]"
proof -
  have fin: "finite (floored ` set rs)" by simp
  from lo obtain ev1 where "ev1 \<in> set rs" "floored ev1 \<le> year_first_minute" by blast
  then have l: "Min (floored ` set rs) \<le> year_first_minute"
    by (meson Min_le fin imageI order_trans)
  from hi obtain ev2 where "ev2 \<in> set rs" "year_last_minute \<le> floored ev2" by blast
  then have h: "year_last_minute \<le> Max (floored ` set rs)"
    by (meson Max_ge fin imageI order_trans)
  from l have "max (Min (floored ` set rs)) year_first_minute = year_first_minute" by simp
  moreover from h have "min (Max (floored ` set rs)) year_last_minute = year_last_minute" by simp
  ultimately show ?thesis using all_minutes_of_minutes [OF a] by simp
qed

lemma year_slots:
  assumes a: "all_minutes_of rs = Inr ms"
    and lo: "\<exists>ev \<in> set rs. floored ev \<le> year_first_minute"
    and hi: "\<exists>ev \<in> set rs. year_last_minute \<le> floored ev"
  shows "(\<exists>v. (t, d, v) \<in> set (valued ms)) \<longleftrightarrow>
         (\<exists>m. year_first_minute \<le> m \<and> m \<le> year_last_minute \<and>
              t = to_local m mod minutes_per_day \<and> d = to_local m div minutes_per_day)"
proof
  assume "\<exists>v. (t, d, v) \<in> set (valued ms)"
  then obtain r where r: "r \<in> set ms" "t = Time r" "d = Date r"
    unfolding valued_iff by blast
  from all_minutes_of_row [OF a r(1)] r(2,3)
  have "year_first_minute \<le> DateTime r \<and> DateTime r \<le> year_last_minute \<and>
      t = to_local (DateTime r) mod minutes_per_day \<and> d = to_local (DateTime r) div minutes_per_day"
    by simp
  then show "\<exists>m. year_first_minute \<le> m \<and> m \<le> year_last_minute \<and>
              t = to_local m mod minutes_per_day \<and> d = to_local m div minutes_per_day" ..
next
  assume "\<exists>m. year_first_minute \<le> m \<and> m \<le> year_last_minute \<and>
              t = to_local m mod minutes_per_day \<and> d = to_local m div minutes_per_day"
  then obtain m where m: "year_first_minute \<le> m" "m \<le> year_last_minute"
    "t = to_local m mod minutes_per_day" "d = to_local m div minutes_per_day" by blast
  from m(1,2) have "m \<in> set [year_first_minute .. year_last_minute]" by simp
  then have "m \<in> set (map DateTime ms)" unfolding bracket_minutes [OF a lo hi] .
  then obtain r where r: "r \<in> set ms" "DateTime r = m" by auto
  from all_minutes_of_row [OF a r(1)] obtain s where "filled r = Some s"
    and "Time r = t" "Date r = d" using m(3,4) r(2) by auto
  with r(1) have "(t, d, StageID s) \<in> set (valued ms)" unfolding valued_iff by blast
  then show "\<exists>v. (t, d, v) \<in> set (valued ms)" ..
qed

lemma div_mod_slot:
  "0 \<le> t \<Longrightarrow> t < minutes_per_day \<Longrightarrow>
   (d * minutes_per_day + t) div minutes_per_day = d \<and>
   (d * minutes_per_day + t) mod minutes_per_day = t"
  by (simp add: minutes_per_day_def)

lemma nonexistent_slot:
  assumes "0 \<le> t" "t < minutes_per_day"
  shows "is_nonexistent (d * minutes_per_day + t) \<longleftrightarrow>
         d = days_from_civil 2022 3 27 \<and> 60 \<le> t \<and> t < 120"
proof -
  consider "d \<le> 19077" | "d = 19078" | "19079 \<le> d" by linarith
  then show ?thesis
    using assms
    by cases (auto simp add: is_nonexistent_def minute_numbers minutes_per_day_def day_numbers)
qed

lemma slot_filled_iff:
  assumes t: "0 \<le> t" "t < minutes_per_day"
    and d: "days_from_civil 2022 1 1 \<le> d" "d \<le> days_from_civil 2022 12 31"
  shows "(\<exists>m. year_first_minute \<le> m \<and> m \<le> year_last_minute \<and>
              t = to_local m mod minutes_per_day \<and> d = to_local m div minutes_per_day) \<longleftrightarrow>
         \<not> (d = days_from_civil 2022 3 27 \<and> 60 \<le> t \<and> t < 120)"
proof
  assume "\<exists>m. year_first_minute \<le> m \<and> m \<le> year_last_minute \<and>
              t = to_local m mod minutes_per_day \<and> d = to_local m div minutes_per_day"
  then obtain m where m: "t = to_local m mod minutes_per_day" "d = to_local m div minutes_per_day"
    by blast
  then have "to_local m = d * minutes_per_day + t" by simp
  with to_local_exists [of m] have "\<not> is_nonexistent (d * minutes_per_day + t)" by simp
  then show "\<not> (d = days_from_civil 2022 3 27 \<and> 60 \<le> t \<and> t < 120)"
    unfolding nonexistent_slot [OF t] .
next
  assume "\<not> (d = days_from_civil 2022 3 27 \<and> 60 \<le> t \<and> t < 120)"
  then have ne: "\<not> is_nonexistent (d * minutes_per_day + t)"
    unfolding nonexistent_slot [OF t] .
  let ?w = "d * minutes_per_day + t"
  let ?m = "if bst_start + 60 \<le> ?w \<and> ?w < bst_end + 60 then ?w - 60 else ?w"
  from to_local_onto [OF ne] have w: "to_local ?m = ?w" .
  from t d have "18993 * 1440 \<le> ?w" "?w \<le> 19357 * 1440 + 1439"
    by (simp_all add: minutes_per_day_def day_numbers)
  then have "year_first_minute \<le> ?m" "?m \<le> year_last_minute"
    by (auto simp add: year_minutes minute_numbers)
  moreover from div_mod_slot [OF t, of d]
  have "t = to_local ?m mod minutes_per_day \<and> d = to_local ?m div minutes_per_day"
    unfolding w by simp
  ultimately show "\<exists>m. year_first_minute \<le> m \<and> m \<le> year_last_minute \<and>
              t = to_local m mod minutes_per_day \<and> d = to_local m div minutes_per_day"
    by blast
qed

lemma year_local_range:
  assumes "year_first_minute \<le> m" "m \<le> year_last_minute"
  shows "0 \<le> to_local m mod minutes_per_day \<and> to_local m mod minutes_per_day < minutes_per_day \<and>
         days_from_civil 2022 1 1 \<le> to_local m div minutes_per_day \<and>
         to_local m div minutes_per_day \<le> days_from_civil 2022 12 31"
proof -
  from assms have "18993 * 1440 \<le> to_local m" "to_local m < 19358 * 1440"
    by (auto simp add: to_local_def utcoffset_def year_minutes minute_numbers)
  then have "18993 \<le> to_local m div 1440" "to_local m div 1440 < 19358"
    by (auto intro: div_ge div_lt)
  then show ?thesis by (simp add: minutes_per_day_def day_numbers)
qed

lemma sort_remdups_upto:
  "set xs = {a..b} \<Longrightarrow> sort (remdups xs) = [a..b::int]"
  by (rule sorted_distinct_set_unique) simp_all

lemma year_grid:
  assumes a: "all_minutes_of rs = Inr ms"
    and lo: "\<exists>ev \<in> set rs. floored ev \<le> year_first_minute"
    and hi: "\<exists>ev \<in> set rs. year_last_minute \<le> floored ev"
  shows "index (pivot_table ms) = [0 .. minutes_per_day - 1] \<and>
    columns (pivot_table ms) = [days_from_civil 2022 1 1 .. days_from_civil 2022 12 31] \<and>
    cells (pivot_table ms) =
      map (\<lambda>t. map (\<lambda>d. cell (valued ms) t d) [days_from_civil 2022 1 1 .. days_from_civil 2022 12 31])
        [0 .. minutes_per_day - 1] \<and>
    (\<forall>t d. 0 \<le> t \<and> t < minutes_per_day \<and>
        days_from_civil 2022 1 1 \<le> d \<and> d \<le> days_from_civil 2022 12 31 \<longrightarrow>
        (cell (valued ms) t d = None) = (d = days_from_civil 2022 3 27 \<and> 60 \<le> t \<and> t < 120))"
proof -
  note slots = year_slots [OF a lo hi]
  have filled_iff: "(\<exists>v. (t, d, v) \<in> set (valued ms)) \<longleftrightarrow>
      \<not> (d = days_from_civil 2022 3 27 \<and> 60 \<le> t \<and> t < 120)"
    if "0 \<le> t" "t < minutes_per_day" "days_from_civil 2022 1 1 \<le> d" "d \<le> days_from_civil 2022 12 31"
    for t d
    unfolding slots using slot_filled_iff [OF that] .
  have in_range: "0 \<le> t \<and> t < minutes_per_day \<and> days_from_civil 2022 1 1 \<le> d \<and>
      d \<le> days_from_civil 2022 12 31" if "(t, d, v) \<in> set (valued ms)" for t d v
  proof -
    from that have "\<exists>v. (t, d, v) \<in> set (valued ms)" ..
    then obtain m where "year_first_minute \<le> m" "m \<le> year_last_minute"
      "t = to_local m mod minutes_per_day" "d = to_local m div minutes_per_day"
      unfolding slots by blast
    with year_local_range [of m] show ?thesis by simp
  qed
  have rows: "set (map (\<lambda>(t, d, v). t) (valued ms)) = {0 .. minutes_per_day - 1}"
  proof (intro set_eqI iffI)
    fix t assume "t \<in> set (map (\<lambda>(t, d, v). t) (valued ms))"
    then obtain d v where "(t, d, v) \<in> set (valued ms)" by auto
    from in_range [OF this] show "t \<in> {0 .. minutes_per_day - 1}" by simp
  next
    fix t assume "t \<in> {0 .. minutes_per_day - 1}"
    then have t: "0 \<le> t" "t < minutes_per_day" by simp_all
    have "\<exists>v. (t, days_from_civil 2022 1 1, v) \<in> set (valued ms)"
      unfolding filled_iff [OF t order_refl, of ] using t
      by (simp add: day_numbers filled_iff)
    then show "t \<in> set (map (\<lambda>(t, d, v). t) (valued ms))" by force
  qed
  have cols: "set (map (\<lambda>(t, d, v). d) (valued ms)) =
      {days_from_civil 2022 1 1 .. days_from_civil 2022 12 31}"
  proof (intro set_eqI iffI)
    fix d assume "d \<in> set (map (\<lambda>(t, d, v). d) (valued ms))"
    then obtain t v where "(t, d, v) \<in> set (valued ms)" by auto
    from in_range [OF this]
    show "d \<in> {days_from_civil 2022 1 1 .. days_from_civil 2022 12 31}" by simp
  next
    fix d assume "d \<in> {days_from_civil 2022 1 1 .. days_from_civil 2022 12 31}"
    then have d: "days_from_civil 2022 1 1 \<le> d" "d \<le> days_from_civil 2022 12 31" by simp_all
    have t: "(0::int) \<le> 720" "720 < minutes_per_day" by (simp_all add: minutes_per_day_def)
    have "\<exists>v. (720, d, v) \<in> set (valued ms)"
      unfolding filled_iff [OF t d] by simp
    then show "d \<in> set (map (\<lambda>(t, d, v). d) (valued ms))" by force
  qed
  have i: "index (pivot_table ms) = [0 .. minutes_per_day - 1]"
    using sort_remdups_upto [OF rows] by (simp add: pivot_table_def Let_def)
  have c: "columns (pivot_table ms) = [days_from_civil 2022 1 1 .. days_from_civil 2022 12 31]"
    using sort_remdups_upto [OF cols] by (simp add: pivot_table_def Let_def)
  have "cells (pivot_table ms) =
      map (\<lambda>t. map (\<lambda>d. cell (valued ms) t d) (columns (pivot_table ms))) (index (pivot_table ms))"
    by (simp add: pivot_table_def Let_def)
  then have ce: "cells (pivot_table ms) =
      map (\<lambda>t. map (\<lambda>d. cell (valued ms) t d) [days_from_civil 2022 1 1 .. days_from_civil 2022 12 31])
        [0 .. minutes_per_day - 1]"
    unfolding i c .
  have e: "\<forall>t d. 0 \<le> t \<and> t < minutes_per_day \<and>
        days_from_civil 2022 1 1 \<le> d \<and> d \<le> days_from_civil 2022 12 31 \<longrightarrow>
        (cell (valued ms) t d = None) = (d = days_from_civil 2022 3 27 \<and> 60 \<le> t \<and> t < 120)"
  proof (intro allI impI)
    fix t d
    assume r: "0 \<le> t \<and> t < minutes_per_day \<and>
        days_from_civil 2022 1 1 \<le> d \<and> d \<le> days_from_civil 2022 12 31"
    then have "(\<exists>v. (t, d, v) \<in> set (valued ms)) \<longleftrightarrow>
        \<not> (d = days_from_civil 2022 3 27 \<and> 60 \<le> t \<and> t < 120)"
      by (intro filled_iff) simp_all
    then show "(cell (valued ms) t d = None) = (d = days_from_civil 2022 3 27 \<and> 60 \<le> t \<and> t < 120)"
      unfolding cell_None_iff by blast
  qed
  from i c ce e show ?thesis by (intro conjI)
qed

section \<open>Rows, columns and cells by position\<close>

lemma year_upto_lengths:
  "length [0 .. minutes_per_day - 1] = 1440"
  "length [days_from_civil 2022 1 1 .. days_from_civil 2022 12 31] = 365"
proof -
  have "nat (minutes_per_day - 1 - 0 + 1) = 1440" by (simp add: minutes_per_day_def)
  with length_upto [of 0 "minutes_per_day - 1"]
  show "length [0 .. minutes_per_day - 1] = 1440" by (rule trans)
  have "nat (days_from_civil 2022 12 31 - days_from_civil 2022 1 1 + 1) = 365"
    by (simp add: day_numbers)
  with length_upto [of "days_from_civil 2022 1 1" "days_from_civil 2022 12 31"]
  show "length [days_from_civil 2022 1 1 .. days_from_civil 2022 12 31] = 365" by (rule trans)
qed

lemma year_upto_nth:
  "i < 1440 \<Longrightarrow> [0 .. minutes_per_day - 1] ! i = int i"
  "j < 365 \<Longrightarrow> [days_from_civil 2022 1 1 .. days_from_civil 2022 12 31] ! j =
     days_from_civil 2022 1 1 + int j"
proof -
  assume "i < 1440"
  then have "0 + int i \<le> minutes_per_day - 1" by (simp add: minutes_per_day_def)
  from nth_upto [OF this] show "[0 .. minutes_per_day - 1] ! i = int i" by simp
next
  assume "j < 365"
  then have "days_from_civil 2022 1 1 + int j \<le> days_from_civil 2022 12 31"
    by (simp add: day_numbers)
  from nth_upto [OF this]
  show "[days_from_civil 2022 1 1 .. days_from_civil 2022 12 31] ! j =
     days_from_civil 2022 1 1 + int j" .
qed

lemma year_grid_nth:
  assumes a: "all_minutes_of rs = Inr ms"
    and lo: "\<exists>ev \<in> set rs. floored ev \<le> year_first_minute"
    and hi: "\<exists>ev \<in> set rs. year_last_minute \<le> floored ev"
    and i: "i < 1440" and j: "j < 365"
  shows "length (index (pivot_table ms)) = 1440"
    and "length (columns (pivot_table ms)) = 365"
    and "length (cells (pivot_table ms)) = 1440"
    and "length (cells (pivot_table ms) ! i) = 365"
    and "index (pivot_table ms) ! i = int i"
    and "columns (pivot_table ms) ! j = days_from_civil 2022 1 1 + int j"
    and "(cells (pivot_table ms) ! i ! j = None) = (j = 85 \<and> 60 \<le> i \<and> i < 120)"
proof -
  let ?rows = "[0 .. minutes_per_day - 1]"
  let ?cols = "[days_from_civil 2022 1 1 .. days_from_civil 2022 12 31]"
  note yg = year_grid [OF a lo hi]
  note ix = yg [THEN conjunct1] and co = yg [THEN conjunct2, THEN conjunct1]
    and ce = yg [THEN conjunct2, THEN conjunct2, THEN conjunct1]
    and em = yg [THEN conjunct2, THEN conjunct2, THEN conjunct2, rule_format]
  from i have ir: "i < length ?rows" by (simp only: year_upto_lengths)
  from j have jc: "j < length ?cols" by (simp only: year_upto_lengths)
  have row: "cells (pivot_table ms) ! i = map (\<lambda>d. cell (valued ms) (int i) d) ?cols"
    unfolding ce nth_map [OF ir] year_upto_nth(1) [OF i] ..
  have cl: "cells (pivot_table ms) ! i ! j = cell (valued ms) (int i) (days_from_civil 2022 1 1 + int j)"
    unfolding row nth_map [OF jc] year_upto_nth(2) [OF j] ..
  from i j have "0 \<le> int i \<and> int i < minutes_per_day \<and>
      days_from_civil 2022 1 1 \<le> days_from_civil 2022 1 1 + int j \<and>
      days_from_civil 2022 1 1 + int j \<le> days_from_civil 2022 12 31"
    by (simp add: minutes_per_day_def day_numbers)
  then have "(cell (valued ms) (int i) (days_from_civil 2022 1 1 + int j) = None) =
      (days_from_civil 2022 1 1 + int j = days_from_civil 2022 3 27 \<and> 60 \<le> int i \<and> int i < 120)"
    by (rule em)
  also have "\<dots> = (j = 85 \<and> 60 \<le> i \<and> i < 120)" by (auto simp add: day_numbers)
  finally show "(cells (pivot_table ms) ! i ! j = None) = (j = 85 \<and> 60 \<le> i \<and> i < 120)"
    unfolding cl .
  show "length (index (pivot_table ms)) = 1440" unfolding ix by (rule year_upto_lengths)
  show "length (columns (pivot_table ms)) = 365" unfolding co by (rule year_upto_lengths)
  show "length (cells (pivot_table ms)) = 1440"
    unfolding ce length_map by (rule year_upto_lengths)
  show "length (cells (pivot_table ms) ! i) = 365"
    unfolding row length_map by (rule year_upto_lengths)
  show "index (pivot_table ms) ! i = int i" unfolding ix by (rule year_upto_nth(1) [OF i])
  show "columns (pivot_table ms) ! j = days_from_civil 2022 1 1 + int j"
    unfolding co by (rule year_upto_nth(2) [OF j])
qed

lemma bracket_floored:
  assumes "\<exists>(t, n, e) \<in> set rs. t div us_per_minute \<le> utc_minute 2022 1 1 0 0"
    and "\<exists>(t, n, e) \<in> set rs. utc_minute 2022 12 31 23 59 \<le> t div us_per_minute"
  shows "\<exists>ev \<in> set rs. floored ev \<le> year_first_minute"
    and "\<exists>ev \<in> set rs. year_last_minute \<le> floored ev"
proof -
  from assms(1) obtain t n e where "(t, n, e) \<in> set rs" "t div us_per_minute \<le> utc_minute 2022 1 1 0 0"
    by blast
  then have "(t, n, e) \<in> set rs" "floored (t, n, e) \<le> year_first_minute"
    by (simp_all add: year_first_minute_def floored_def keyed_def)
  then show "\<exists>ev \<in> set rs. floored ev \<le> year_first_minute" ..
  from assms(2) obtain t n e where "(t, n, e) \<in> set rs" "utc_minute 2022 12 31 23 59 \<le> t div us_per_minute"
    by blast
  then have "(t, n, e) \<in> set rs" "year_last_minute \<le> floored (t, n, e)"
    by (simp_all add: year_last_minute_def floored_def keyed_def)
  then show "\<exists>ev \<in> set rs. year_last_minute \<le> floored ev" ..
qed

section \<open>Labels\<close>

lemma noon_labels:
  "labels (events_between noon_events) =
     Inr [\<lparr>lPeriod = ''Astronomical twilight_AM'', lTime = Mean_of [716], lDate = 18993, lStageID = 1\<rparr>,
          \<lparr>lPeriod = ''Astronomical twilight_PM'', lTime = Mean_of [723], lDate = 18993, lStageID = 1\<rparr>,
          \<lparr>lPeriod = ''Civil twilight_AM'', lTime = Mean_of [718], lDate = 18993, lStageID = 3\<rparr>,
          \<lparr>lPeriod = ''Civil twilight_PM'', lTime = Mean_of [721], lDate = 18993, lStageID = 3\<rparr>,
          \<lparr>lPeriod = ''Day'', lTime = Mean_of [719, 720], lDate = 18993, lStageID = 4\<rparr>,
          \<lparr>lPeriod = ''Nautical twilight_AM'', lTime = Mean_of [717], lDate = 18993, lStageID = 2\<rparr>,
          \<lparr>lPeriod = ''Nautical twilight_PM'', lTime = Mean_of [722], lDate = 18993, lStageID = 2\<rparr>,
          \<lparr>lPeriod = ''Night_AM'', lTime = Mean_of [715], lDate = 18993, lStageID = 0\<rparr>,
          \<lparr>lPeriod = ''Night_PM'', lTime = Mean_of [724], lDate = 18993, lStageID = 0\<rparr>]"
  unfolding labels_def noon_minutes by code_simp


lemma lPeriod_agg: "lPeriod (agg g k) = k"
  by (simp add: agg_def)

lemma map_lPeriod_labels: "map lPeriod (labels_of ms) = period_keys (last_day_of ms)"
  by (simp add: labels_of_def o_def lPeriod_agg)

lemma period_list_set:
  "set (concat (map (\<lambda>r. case Period r of None \<Rightarrow> [] | Some k \<Rightarrow> [k]) rows)) =
   {k. \<exists>r \<in> set rows. Period r = Some k}"
proof (intro set_eqI iffI)
  fix k assume "k \<in> set (concat (map (\<lambda>r. case Period r of None \<Rightarrow> [] | Some k \<Rightarrow> [k]) rows))"
  then obtain r where r: "r \<in> set rows" "k \<in> set (case Period r of None \<Rightarrow> [] | Some k \<Rightarrow> [k])"
    by auto
  from r(2) have "Period r = Some k" by (cases "Period r") auto
  with r(1) show "k \<in> {k. \<exists>r \<in> set rows. Period r = Some k}" by blast
next
  fix k assume "k \<in> {k. \<exists>r \<in> set rows. Period r = Some k}"
  then obtain r where r: "r \<in> set rows" "Period r = Some k" by blast
  then have "k \<in> set (case Period r of None \<Rightarrow> [] | Some k \<Rightarrow> [k])" by simp
  with r(1) show "k \<in> set (concat (map (\<lambda>r. case Period r of None \<Rightarrow> [] | Some k \<Rightarrow> [k]) rows))"
    by (auto intro!: bexI [of _ r])
qed

lemma period_keys_eq:
  "period_keys rows = sorted_list_of_set {k. \<exists>r \<in> set rows. Period r = Some k}"
  unfolding period_keys_def period_list_set [symmetric]
  by (rule sorted_list_of_set_sort_remdups [symmetric])



lemma period_of_day: "has_stage ''Day'' r \<Longrightarrow> Period r = Some ''Day''"
  by (cases "filled r") (simp_all add: has_stage_def Period_def)

lemma period_of_half:
  "has_stage name r \<Longrightarrow> name \<noteq> ''Day'' \<Longrightarrow>
   Period r = Some (name @ ''_'' @ (if before_noon r then ''AM'' else ''PM''))"
  by (cases "filled r") (auto simp add: has_stage_def Period_def am_pm_def before_noon_def)


lemma nine_periods_sorted:
  "sorted_list_of_set
     {''Night_AM'', ''Astronomical twilight_AM'', ''Nautical twilight_AM'', ''Civil twilight_AM'',
      ''Day'', ''Civil twilight_PM'', ''Nautical twilight_PM'', ''Astronomical twilight_PM'',
      ''Night_PM''} =
   [''Astronomical twilight_AM'', ''Astronomical twilight_PM'', ''Civil twilight_AM'',
    ''Civil twilight_PM'', ''Day'', ''Nautical twilight_AM'', ''Nautical twilight_PM'',
    ''Night_AM'', ''Night_PM'']"
proof -
  have "sorted_list_of_set
     (set [''Night_AM'', ''Astronomical twilight_AM'', ''Nautical twilight_AM'', ''Civil twilight_AM'',
      ''Day'', ''Civil twilight_PM'', ''Nautical twilight_PM'', ''Astronomical twilight_PM'',
      ''Night_PM'']) =
   [''Astronomical twilight_AM'', ''Astronomical twilight_PM'', ''Civil twilight_AM'',
    ''Civil twilight_PM'', ''Day'', ''Nautical twilight_AM'', ''Nautical twilight_PM'',
    ''Night_AM'', ''Night_PM'']"
    unfolding sorted_list_of_set_sort_remdups by code_simp
  then show ?thesis by (simp only: list.set)
qed

lemma nine_label_texts:
  "map (\<lambda>k. takeWhile (\<lambda>c. c \<noteq> CHR ''_'') k)
     [''Astronomical twilight_AM'', ''Astronomical twilight_PM'', ''Civil twilight_AM'',
      ''Civil twilight_PM'', ''Day'', ''Nautical twilight_AM'', ''Nautical twilight_PM'',
      ''Night_AM'', ''Night_PM''] =
   [''Astronomical twilight'', ''Astronomical twilight'', ''Civil twilight'', ''Civil twilight'',
    ''Day'', ''Nautical twilight'', ''Nautical twilight'', ''Night'', ''Night'']"
  by simp

lemma periods_append:
  "{k. \<exists>r \<in> set (xs @ ys). Period r = Some k} =
   {k. \<exists>r \<in> set xs. Period r = Some k} \<union> {k. \<exists>r \<in> set ys. Period r = Some k}"
  by auto

lemma periods_segment:
  "seg \<noteq> [] \<Longrightarrow> \<forall>r \<in> set seg. Period r = Some k \<Longrightarrow>
   {k'. \<exists>r \<in> set seg. Period r = Some k'} = {k}"
proof -
  assume ne: "seg \<noteq> []" and all: "\<forall>r \<in> set seg. Period r = Some k"
  from ne obtain r where "r \<in> set seg" by (cases seg) auto
  with all show ?thesis by auto
qed

section \<open>Solstice marking keeps the solstices\<close>

text \<open>
  Claim C4. Given four seasonal events, each with a valid index into the table of names,
  two of them equinoxes (index 0 or 2) and hence two of them solstices, the marking loop
  raises no error and retains exactly two of the events: its marks are the events of the
  input whose lower-cased name contains \<^verbatim>\<open>solstice\<close>, which are the events with index
  1 or 3, in the order of the input, each with its local date and its name. So every
  retained name contains \<^verbatim>\<open>solstice\<close>, and an event of the input is dropped exactly
  when its name does not.
\<close>

theorem solstice_filter_keeps_two:
  assumes four: "length evs = 4"
    and valid: "\<forall>(t, i) \<in> set evs. i = 0 \<or> i = 1 \<or> i = 2 \<or> i = 3"
    and equinoxes: "length (filter (\<lambda>(t, i). i = 0 \<or> i = 2) evs) = 2"
  shows "\<exists>marks. mark_solstices evs = Inr marks \<and> length marks = 2 \<and>
           (\<forall>(d, name) \<in> set marks. contains (lower name) ''solstice'') \<and>
           marks = map (\<lambda>(t, i). (to_local (t div us_per_minute) div minutes_per_day,
                                   SEASON_EVENTS ! nat i))
                     (filter (\<lambda>(t, i). contains (lower (SEASON_EVENTS ! nat i)) ''solstice'') evs) \<and>
           filter (\<lambda>(t, i). contains (lower (SEASON_EVENTS ! nat i)) ''solstice'') evs =
             filter (\<lambda>(t, i). i = 1 \<or> i = 3) evs"
proof -
  let ?sol = "filter (\<lambda>(t, i). i = 1 \<or> i = 3) evs"
  let ?marks = "map (\<lambda>(t, i). (to_local (t div us_per_minute) div minutes_per_day, SEASON_EVENTS ! nat i)) ?sol"
  have m: "mark_solstices evs = Inr ?marks"
    by (rule mark_solstices_valid [OF valid])
  have "filter (\<lambda>(t, i). i = 1 \<or> i = 3) evs = filter (Not \<circ> (\<lambda>(t, i). i = 0 \<or> i = 2)) evs"
    using valid by (intro filter_cong) auto
  then have "length ?sol + length (filter (\<lambda>(t, i). i = 0 \<or> i = 2) evs) = length evs"
    using sum_length_filter_compl [of "\<lambda>(t, i). i = 0 \<or> i = 2" evs] by (simp add: o_def)
  with four equinoxes have two: "length ?marks = 2" by simp
  have names: "\<forall>(d, name) \<in> set ?marks. contains (lower name) ''solstice''"
    by (auto simp add: season_nth solstice_test)
  have "\<And>x. x \<in> set evs \<Longrightarrow>
      (case x of (t, i) \<Rightarrow> contains (lower (SEASON_EVENTS ! nat i)) ''solstice'') =
      (case x of (t, i) \<Rightarrow> i = 1 \<or> i = 3)"
  proof -
    fix x assume x: "x \<in> set evs"
    obtain t i where ti: "x = (t, i)" by (cases x)
    from valid x ti have "i = 0 \<or> i = 1 \<or> i = 2 \<or> i = 3" by auto
    then show "(case x of (t, i) \<Rightarrow> contains (lower (SEASON_EVENTS ! nat i)) ''solstice'') =
      (case x of (t, i) \<Rightarrow> i = 1 \<or> i = 3)"
      unfolding ti by (elim disjE) (simp_all add: SEASON_EVENTS_def solstice_test)
  qed
  then have same: "filter (\<lambda>(t, i). contains (lower (SEASON_EVENTS ! nat i)) ''solstice'') evs = ?sol"
    by (intro filter_cong refl)
  from m two names same show ?thesis by (intro exI [of _ ?marks] conjI) simp_all
qed

theorem solstice_filter_keeps_two_witness:
  "mark_solstices [(1647790380000000, 0), (1655802840000000, 1),
                   (1663898640000000, 2), (1671659280000000, 3)] =
     Inr [(days_from_civil 2022 6 21, ''Summer Solstice''),
          (days_from_civil 2022 12 21, ''Winter Solstice'')]"
proof -
  let ?evs = "[(1647790380000000, 0), (1655802840000000, 1),
               (1663898640000000, 2), (1671659280000000, 3)] :: (int \<times> int) list"
  have four: "length ?evs = 4" by simp
  have valid: "\<forall>(t, i) \<in> set ?evs. i = 0 \<or> i = 1 \<or> i = 2 \<or> i = 3" by simp
  have equinoxes: "length (filter (\<lambda>(t, i). i = 0 \<or> i = 2) ?evs) = 2" by simp
  from solstice_filter_keeps_two [OF four valid equinoxes]
  obtain marks where m: "mark_solstices ?evs = Inr marks"
    and eq: "marks = map (\<lambda>(t, i). (to_local (t div us_per_minute) div minutes_per_day,
                                   SEASON_EVENTS ! nat i))
                     (filter (\<lambda>(t, i). contains (lower (SEASON_EVENTS ! nat i)) ''solstice'') ?evs)"
    and f: "filter (\<lambda>(t, i). contains (lower (SEASON_EVENTS ! nat i)) ''solstice'') ?evs =
             filter (\<lambda>(t, i). i = 1 \<or> i = 3) ?evs"
    by blast
  have "marks = [(days_from_civil 2022 6 21, ''Summer Solstice''),
                 (days_from_civil 2022 12 21, ''Winter Solstice'')]"
    unfolding eq f
    by (simp add: SEASON_EVENTS_def to_local_def utcoffset_def minute_numbers
        us_per_minute_def minutes_per_day_def days_from_civil_def)
  with m show ?thesis by simp
qed

section \<open>Forward fill\<close>

text \<open>
  Claim C1, as stated, fails: the event instants are floored to the minute before the
  table is resampled, so the minute that holds the later of two adjacent events already
  carries the later phase although it starts before that event. With events at 00:02:10
  (astronomical twilight) and 00:04:20 (night), the row of 00:04:00 lies between the two
  instants and has the phase Night.
\<close>

theorem minute_in_event_interval_counterexample:
  "expand [(1640995330000000, ''Astronomical twilight'', 1), (1640995460000000, ''Night'', 0)] =
     Inr [\<lparr>DateTime = 27349922,
           filled = Some \<lparr>StageStart = 1640995330000000, Stage = ''Astronomical twilight'', StageID = 1\<rparr>,
           Date = 18993, Time = 2\<rparr>,
          \<lparr>DateTime = 27349923,
           filled = Some \<lparr>StageStart = 1640995330000000, Stage = ''Astronomical twilight'', StageID = 1\<rparr>,
           Date = 18993, Time = 3\<rparr>,
          \<lparr>DateTime = 27349924,
           filled = Some \<lparr>StageStart = 1640995460000000, Stage = ''Night'', StageID = 0\<rparr>,
           Date = 18993, Time = 4\<rparr>] \<and>
   1640995330000000 \<le> 27349924 * us_per_minute \<and> 27349924 * us_per_minute < 1640995460000000"
  by (simp add: expand_def all_stages_of_def floor_1min_def is_ambiguous_def to_local_def
      utcoffset_def minute_numbers resample_ffill_def minute_of_def us_per_minute_def
      minutes_per_day_def upto.simps)

text \<open>
  Claim C1, amended. When the expansion raises no error, the table has one row per minute
  from the floored minute of the earliest event to that of the latest; each row carries
  the columns of the event with the greatest floored minute at or before the row's minute;
  and for two events adjacent in floored minute, every minute from the first floored
  minute up to, not including, the second has a row, and that row carries the first event.
\<close>

theorem expand_forward_fills_floored_minutes:
  assumes e: "expand rs = Inr rows"
  shows "map DateTime rows = [Min (floored ` set rs) .. Max (floored ` set rs)] \<and>
    (\<forall>r \<in> set rows. \<exists>ev \<in> set rs.
        filled r = Some (row_of ev) \<and> floored ev \<le> DateTime r \<and>
        (\<forall>ev' \<in> set rs. floored ev' \<le> DateTime r \<longrightarrow> floored ev' \<le> floored ev)) \<and>
    (\<forall>ev1 \<in> set rs. \<forall>ev2 \<in> set rs.
        floored ev1 < floored ev2 \<and>
        (\<forall>ev \<in> set rs. \<not> (floored ev1 < floored ev \<and> floored ev < floored ev2)) \<longrightarrow>
        (\<forall>m. floored ev1 \<le> m \<and> m < floored ev2 \<longrightarrow>
           (\<exists>r \<in> set rows. DateTime r = m) \<and>
           (\<forall>r \<in> set rows. DateTime r = m \<longrightarrow> filled r = Some (row_of ev1))))"
proof (intro conjI ballI impI allI)
  show "map DateTime rows = [Min (floored ` set rs) .. Max (floored ` set rs)]"
    by (rule expand_minutes [OF e])
next
  fix r assume "r \<in> set rows"
  from expand_row [OF e this] obtain ev where "ev \<in> set rs" "filled r = Some (row_of ev)"
    "latest (map keyed rs) (DateTime r) (keyed ev)" by blast
  then show "\<exists>ev \<in> set rs.
        filled r = Some (row_of ev) \<and> floored ev \<le> DateTime r \<and>
        (\<forall>ev' \<in> set rs. floored ev' \<le> DateTime r \<longrightarrow> floored ev' \<le> floored ev)"
    by (intro bexI [of _ ev]) (auto simp add: latest_def floored_def)
next
  fix ev1 ev2 m
  assume ev1: "ev1 \<in> set rs" and ev2: "ev2 \<in> set rs"
    and adj: "floored ev1 < floored ev2 \<and>
        (\<forall>ev \<in> set rs. \<not> (floored ev1 < floored ev \<and> floored ev < floored ev2))"
    and m: "floored ev1 \<le> m \<and> m < floored ev2"
  have fin: "finite (floored ` set rs)" by simp
  from ev1 m have "Min (floored ` set rs) \<le> m"
    by (meson Min_le fin imageI order_trans)
  moreover from ev2 m have "m \<le> Max (floored ` set rs)"
    by (meson Max_ge fin imageI order_trans less_imp_le)
  ultimately have "m \<in> set (map DateTime rows)"
    unfolding expand_minutes [OF e] by simp
  then show "\<exists>r \<in> set rows. DateTime r = m" by auto
next
  fix ev1 ev2 m r
  assume ev1: "ev1 \<in> set rs" and ev2: "ev2 \<in> set rs"
    and adj: "floored ev1 < floored ev2 \<and>
        (\<forall>ev \<in> set rs. \<not> (floored ev1 < floored ev \<and> floored ev < floored ev2))"
    and m: "floored ev1 \<le> m \<and> m < floored ev2"
    and r: "r \<in> set rows" and rm: "DateTime r = m"
  from expand_row [OF e r] obtain ev where ev: "ev \<in> set rs" "filled r = Some (row_of ev)"
    "latest (map keyed rs) (DateTime r) (keyed ev)" by blast
  from ev(3) ev1 m rm have "floored ev1 \<le> floored ev" "floored ev \<le> m"
    by (auto simp add: latest_def floored_def)
  with adj ev(1) m have f: "floored ev = floored ev1" by force
  from expand_Inr [OF e] have "distinct (map floored rs)" by simp
  then have "inj_on floored (set rs)" by (simp add: distinct_map)
  from inj_onD [OF this f ev(1) ev1] have "ev = ev1" .
  with ev(2) show "filled r = Some (row_of ev1)" by simp
qed

theorem expand_forward_fills_floored_minutes_witness:
  "\<exists>rows. expand (map named flicker_events) = Inr rows \<and>
     (\<exists>r \<in> set rows. DateTime r = 27349923 \<and>
        filled r = Some \<lparr>StageStart = 1640995330000000, Stage = ''Astronomical twilight'', StageID = 1\<rparr>)"
proof -
  define rs where "rs = map named flicker_events"
  define ev1 :: "int \<times> string \<times> int" where "ev1 = (1640995330000000, ''Astronomical twilight'', 1)"
  define ev2 :: "int \<times> string \<times> int" where "ev2 = (1640995460000000, ''Night'', 0)"
  have rs: "rs = [(1640995110000000, ''Night'', 0), ev1, ev2,
      (1640995600000000, ''Astronomical twilight'', 1), (1640995695000000, ''Nautical twilight'', 2)]"
    by (simp add: rs_def flicker_records ev1_def ev2_def)
  have ne: "rs \<noteq> []" by (simp add: rs)
  have amb: "\<forall>(t, n, e) \<in> set rs. \<not> is_ambiguous (to_local (t div us_per_minute))"
    unfolding rs ev1_def ev2_def not_ambiguous_iff by (simp add: us_per_minute_def minute_numbers)
  have fl: "map floored rs = [27349918, 27349922, 27349924, 27349926, 27349928]"
    by (simp add: rs ev1_def ev2_def floored_def keyed_def us_per_minute_def)
  then have d: "distinct (map floored rs)" by simp
  from expand_ok [OF ne amb d] obtain rows where e: "expand rs = Inr rows" by blast
  have in1: "ev1 \<in> set rs" and in2: "ev2 \<in> set rs" by (simp_all add: rs)
  have f1: "floored ev1 = 27349922" and f2: "floored ev2 = 27349924"
    by (simp_all add: ev1_def ev2_def floored_def keyed_def us_per_minute_def)
  have "set (map floored rs) = {27349918, 27349922, 27349924, 27349926, 27349928}"
    unfolding fl by simp
  then have fs: "\<forall>ev \<in> set rs. floored ev \<in> {27349918, 27349922, 27349924, 27349926, 27349928}"
    by (simp only: set_map) blast
  have adj: "floored ev1 < floored ev2 \<and>
      (\<forall>ev \<in> set rs. \<not> (floored ev1 < floored ev \<and> floored ev < floored ev2))"
  proof (intro conjI ballI)
    show "floored ev1 < floored ev2" by (simp add: f1 f2)
    fix ev assume "ev \<in> set rs"
    with fs have "floored ev \<in> {27349918, 27349922, 27349924, 27349926, 27349928}" by (rule bspec)
    then show "\<not> (floored ev1 < floored ev \<and> floored ev < floored ev2)"
      unfolding f1 f2 by auto
  qed
  note t = expand_forward_fills_floored_minutes [OF e]
  note t3 = t [THEN conjunct2, THEN conjunct2, rule_format, OF in1 in2 adj, of 27349923]
  have "floored ev1 \<le> 27349923 \<and> 27349923 < floored ev2" by (simp add: f1 f2)
  from t3 [OF this] obtain r where r: "r \<in> set rows" "DateTime r = 27349923"
    and a: "\<forall>r \<in> set rows. DateTime r = 27349923 \<longrightarrow> filled r = Some (row_of ev1)"
    by (elim conjE bexE)
  from a r(1) have "DateTime r = 27349923 \<longrightarrow> filled r = Some (row_of ev1)" by (rule bspec)
  with r(2) have "filled r = Some (row_of ev1)" by simp
  moreover have "row_of ev1 = \<lparr>StageStart = 1640995330000000, Stage = ''Astronomical twilight'', StageID = 1\<rparr>"
    by (simp add: ev1_def row_of_def keyed_def)
  ultimately have "\<exists>r \<in> set rows. DateTime r = 27349923 \<and>
        filled r = Some \<lparr>StageStart = 1640995330000000, Stage = ''Astronomical twilight'', StageID = 1\<rparr>"
    using r by (intro bexI [of _ r]) simp_all
  with e show ?thesis unfolding rs_def by (intro exI [of _ rows] conjI)
qed

section \<open>The shape of the grid\<close>

text \<open>
  Claim C2, as stated, fails: the grid has empty cells. The rows are local times of day
  and the columns local dates; on 2022-03-27 the clock in Europe/London jumps from 01:00 to
  02:00, so no minute of the year has that date and a time from 01:00 to 01:59. On a run
  that covers the whole year the grid has 1440 rows and 365 columns, and the cell of
  01:30 on 2022-03-27 is empty.
\<close>

theorem grid_cell_empty_counterexample:
  "(case pivoted (events_between year_events) of
      Inl err \<Rightarrow> False
    | Inr g \<Rightarrow> length (index g) = 1440 \<and> length (columns g) = 365 \<and>
        index g ! 90 = 90 \<and> columns g ! 85 = days_from_civil 2022 3 27 \<and>
        cells g ! 90 ! 85 = None)"
proof -
  from year_minutes_exist obtain ms where ms: "all_minutes (events_between year_events) = Inr ms" ..
  then have a: "all_minutes_of (map named year_events) = Inr ms"
    by (simp add: all_minutes_def year_run)
  note b = bracket_floored [OF year_bracket [THEN conjunct1] year_bracket [THEN conjunct2]]
  have ij: "(90::nat) < 1440" "(85::nat) < 365" by simp_all
  note n = year_grid_nth [OF a b ij]
  have c3: "index (pivot_table ms) ! 90 = 90" using n(5) by simp
  have c4: "columns (pivot_table ms) ! 85 = days_from_civil 2022 3 27"
    using n(6) by (simp add: day_numbers)
  have c5: "cells (pivot_table ms) ! 90 ! 85 = None" using n(7) by simp
  have p: "pivoted (events_between year_events) = Inr (pivot_table ms)"
    by (simp add: pivoted_def ms)
  show ?thesis unfolding p using n(1) n(2) c3 c4 c5 by simp
qed

text \<open>
  Claim C2, amended. When the sweep reports an event at or before 2022-01-01 00:00 and one
  at or after 2022-12-31 23:59 and the pipeline raises no error, the grid has exactly 1440
  rows, one per minute of the day, and exactly 365 columns, one per date of 2022; a cell is
  empty exactly when it lies in the hour the clock skips on 2022-03-27 (column 85, rows 60
  to 119), and every other cell is filled.
\<close>

theorem grid_shape:
  assumes rec: "all_records f = Inr rs"
    and lo: "\<exists>(t, n, e) \<in> set rs. t div us_per_minute \<le> utc_minute 2022 1 1 0 0"
    and hi: "\<exists>(t, n, e) \<in> set rs. utc_minute 2022 12 31 23 59 \<le> t div us_per_minute"
    and piv: "pivoted f = Inr g"
  shows "length (index g) = 1440 \<and> length (columns g) = 365 \<and> length (cells g) = 1440 \<and>
    (\<forall>i < 1440. index g ! i = int i \<and> length (cells g ! i) = 365 \<and>
       (\<forall>j < 365. columns g ! j = days_from_civil 2022 1 1 + int j \<and>
          (cells g ! i ! j = None) = (j = 85 \<and> 60 \<le> i \<and> i < 120)))"
proof -
  from piv obtain ms where ms: "all_minutes f = Inr ms" and g: "g = pivot_table ms"
    by (auto simp add: pivoted_def split: sum.splits)
  from ms rec have a: "all_minutes_of rs = Inr ms" by (simp add: all_minutes_def)
  note b = bracket_floored [OF lo hi]
  have z: "(0::nat) < 1440" "(0::nat) < 365" by simp_all
  note n0 = year_grid_nth [OF a b z]
  have l1: "length (index g) = 1440" unfolding g by (rule n0(1))
  have l2: "length (columns g) = 365" unfolding g by (rule n0(2))
  have l3: "length (cells g) = 1440" unfolding g by (rule n0(3))
  have l4: "\<forall>i < 1440. index g ! i = int i \<and> length (cells g ! i) = 365 \<and>
       (\<forall>j < 365. columns g ! j = days_from_civil 2022 1 1 + int j \<and>
          (cells g ! i ! j = None) = (j = 85 \<and> 60 \<le> i \<and> i < 120))"
  proof (intro allI impI conjI)
    fix i :: nat assume i: "i < 1440"
    show "index g ! i = int i" unfolding g by (rule year_grid_nth(5) [OF a b i z(2)])
    show "length (cells g ! i) = 365" unfolding g by (rule year_grid_nth(4) [OF a b i z(2)])
    fix j :: nat assume j: "j < 365"
    show "columns g ! j = days_from_civil 2022 1 1 + int j"
      unfolding g by (rule year_grid_nth(6) [OF a b i j])
    show "(cells g ! i ! j = None) = (j = 85 \<and> 60 \<le> i \<and> i < 120)"
      unfolding g by (rule year_grid_nth(7) [OF a b i j])
  qed
  from l1 l2 l3 l4 show ?thesis by (intro conjI)
qed

theorem grid_shape_witness:
  "\<exists>g. pivoted (events_between year_events) = Inr g \<and>
     length (index g) = 1440 \<and> length (columns g) = 365 \<and>
     cells g ! 719 ! 0 \<noteq> None \<and> cells g ! 60 ! 85 = None"
proof -
  from year_minutes_exist obtain ms where ms: "all_minutes (events_between year_events) = Inr ms" ..
  then have p: "pivoted (events_between year_events) = Inr (pivot_table ms)"
    by (simp add: pivoted_def)
  note t = grid_shape [OF year_run year_bracket [THEN conjunct1] year_bracket [THEN conjunct2] p]
  note l1 = t [THEN conjunct1] and l2 = t [THEN conjunct2, THEN conjunct1]
    and r = t [THEN conjunct2, THEN conjunct2, THEN conjunct2, rule_format]
  have b: "(719::nat) < 1440" "(60::nat) < 1440" "(0::nat) < 365" "(85::nat) < 365" by simp_all
  note r1 = r [OF b(1), THEN conjunct2, THEN conjunct2, rule_format, OF b(3), THEN conjunct2]
  note r2 = r [OF b(2), THEN conjunct2, THEN conjunct2, rule_format, OF b(4), THEN conjunct2]
  from r1 have c1: "cells (pivot_table ms) ! 719 ! 0 \<noteq> None" by simp
  from r2 have c2: "cells (pivot_table ms) ! 60 ! 85 = None" by simp
  from p l1 l2 c1 c2 show ?thesis by (intro exI [of _ "pivot_table ms"] conjI)
qed

section \<open>Labels of a full day\<close>

lemma segment_am:
  "\<forall>r \<in> set seg. has_stage name r \<and> before_noon r \<Longrightarrow> name \<noteq> ''Day'' \<Longrightarrow>
   \<forall>r \<in> set seg. Period r = Some (name @ ''_AM'')"
proof
  fix r assume a: "\<forall>r \<in> set seg. has_stage name r \<and> before_noon r" "name \<noteq> ''Day''" "r \<in> set seg"
  then have h: "has_stage name r" "before_noon r" by simp_all
  from period_of_half [OF h(1) a(2)] h(2) show "Period r = Some (name @ ''_AM'')" by simp
qed

lemma segment_pm:
  "\<forall>r \<in> set seg. has_stage name r \<and> \<not> before_noon r \<Longrightarrow> name \<noteq> ''Day'' \<Longrightarrow>
   \<forall>r \<in> set seg. Period r = Some (name @ ''_PM'')"
proof
  fix r assume a: "\<forall>r \<in> set seg. has_stage name r \<and> \<not> before_noon r" "name \<noteq> ''Day''" "r \<in> set seg"
  then have h: "has_stage name r" "\<not> before_noon r" by simp_all
  from period_of_half [OF h(1) a(2)] h(2) show "Period r = Some (name @ ''_PM'')" by simp
qed

lemma segment_day:
  "\<forall>r \<in> set seg. has_stage ''Day'' r \<Longrightarrow> \<forall>r \<in> set seg. Period r = Some ''Day''"
proof
  fix r assume "\<forall>r \<in> set seg. has_stage ''Day'' r" "r \<in> set seg"
  then have "has_stage ''Day'' r" by simp
  then show "Period r = Some ''Day''" by (rule period_of_day)
qed

lemma full_day_periods:
  assumes day: "rows = n1 @ a1 @ u1 @ c1 @ dy @ c2 @ u2 @ a2 @ n2"
    and ne: "n1 \<noteq> []" "a1 \<noteq> []" "u1 \<noteq> []" "c1 \<noteq> []" "dy \<noteq> []" "c2 \<noteq> []" "u2 \<noteq> []"
      "a2 \<noteq> []" "n2 \<noteq> []"
    and am: "\<forall>r \<in> set n1. has_stage ''Night'' r \<and> before_noon r"
      "\<forall>r \<in> set a1. has_stage ''Astronomical twilight'' r \<and> before_noon r"
      "\<forall>r \<in> set u1. has_stage ''Nautical twilight'' r \<and> before_noon r"
      "\<forall>r \<in> set c1. has_stage ''Civil twilight'' r \<and> before_noon r"
    and dy: "\<forall>r \<in> set dy. has_stage ''Day'' r"
    and pm: "\<forall>r \<in> set c2. has_stage ''Civil twilight'' r \<and> \<not> before_noon r"
      "\<forall>r \<in> set u2. has_stage ''Nautical twilight'' r \<and> \<not> before_noon r"
      "\<forall>r \<in> set a2. has_stage ''Astronomical twilight'' r \<and> \<not> before_noon r"
      "\<forall>r \<in> set n2. has_stage ''Night'' r \<and> \<not> before_noon r"
  shows "period_keys rows =
     [''Astronomical twilight_AM'', ''Astronomical twilight_PM'', ''Civil twilight_AM'',
      ''Civil twilight_PM'', ''Day'', ''Nautical twilight_AM'', ''Nautical twilight_PM'',
      ''Night_AM'', ''Night_PM'']"
proof -
  have p1: "{k. \<exists>r \<in> set n1. Period r = Some k} = {''Night_AM''}"
    using periods_segment [OF ne(1) segment_am [OF am(1)]] by simp
  have p2: "{k. \<exists>r \<in> set a1. Period r = Some k} = {''Astronomical twilight_AM''}"
    using periods_segment [OF ne(2) segment_am [OF am(2)]] by simp
  have p3: "{k. \<exists>r \<in> set u1. Period r = Some k} = {''Nautical twilight_AM''}"
    using periods_segment [OF ne(3) segment_am [OF am(3)]] by simp
  have p4: "{k. \<exists>r \<in> set c1. Period r = Some k} = {''Civil twilight_AM''}"
    using periods_segment [OF ne(4) segment_am [OF am(4)]] by simp
  have p5: "{k. \<exists>r \<in> set dy. Period r = Some k} = {''Day''}"
    using periods_segment [OF ne(5) segment_day [OF dy]] by simp
  have p6: "{k. \<exists>r \<in> set c2. Period r = Some k} = {''Civil twilight_PM''}"
    using periods_segment [OF ne(6) segment_pm [OF pm(1)]] by simp
  have p7: "{k. \<exists>r \<in> set u2. Period r = Some k} = {''Nautical twilight_PM''}"
    using periods_segment [OF ne(7) segment_pm [OF pm(2)]] by simp
  have p8: "{k. \<exists>r \<in> set a2. Period r = Some k} = {''Astronomical twilight_PM''}"
    using periods_segment [OF ne(8) segment_pm [OF pm(3)]] by simp
  have p9: "{k. \<exists>r \<in> set n2. Period r = Some k} = {''Night_PM''}"
    using periods_segment [OF ne(9) segment_pm [OF pm(4)]] by simp
  have "{k. \<exists>r \<in> set rows. Period r = Some k} =
     {''Night_AM'', ''Astronomical twilight_AM'', ''Nautical twilight_AM'', ''Civil twilight_AM'',
      ''Day'', ''Civil twilight_PM'', ''Nautical twilight_PM'', ''Astronomical twilight_PM'',
      ''Night_PM''}"
    unfolding day periods_append p1 p2 p3 p4 p5 p6 p7 p8 p9
    by (simp only: Un_insert_left Un_empty_left)
  then show ?thesis unfolding period_keys_eq by (simp only: nine_periods_sorted)
qed

text \<open>
  Claim C3, as stated, fails: Night is split by half-day like the twilight phases, so
  such a day has nine anchors, not seven. On a final day that passes through the nine
  phases around noon, label derivation yields anchors for Night in the morning and Night in
  the evening besides the seven of the claim.
\<close>

theorem labels_count_counterexample:
  "labels (events_between noon_events) =
     Inr [\<lparr>lPeriod = ''Astronomical twilight_AM'', lTime = Mean_of [716], lDate = 18993, lStageID = 1\<rparr>,
          \<lparr>lPeriod = ''Astronomical twilight_PM'', lTime = Mean_of [723], lDate = 18993, lStageID = 1\<rparr>,
          \<lparr>lPeriod = ''Civil twilight_AM'', lTime = Mean_of [718], lDate = 18993, lStageID = 3\<rparr>,
          \<lparr>lPeriod = ''Civil twilight_PM'', lTime = Mean_of [721], lDate = 18993, lStageID = 3\<rparr>,
          \<lparr>lPeriod = ''Day'', lTime = Mean_of [719, 720], lDate = 18993, lStageID = 4\<rparr>,
          \<lparr>lPeriod = ''Nautical twilight_AM'', lTime = Mean_of [717], lDate = 18993, lStageID = 2\<rparr>,
          \<lparr>lPeriod = ''Nautical twilight_PM'', lTime = Mean_of [722], lDate = 18993, lStageID = 2\<rparr>,
          \<lparr>lPeriod = ''Night_AM'', lTime = Mean_of [715], lDate = 18993, lStageID = 0\<rparr>,
          \<lparr>lPeriod = ''Night_PM'', lTime = Mean_of [724], lDate = 18993, lStageID = 0\<rparr>] \<and>
   map_sum id length (labels (events_between noon_events)) = Inr 9"
  by (simp add: noon_labels)

text \<open>
  Claim C3, amended. For a final day whose rows pass through Night, astronomical, nautical
  and civil twilight before noon, Day, and civil, nautical and astronomical twilight and
  Night from noon on, label derivation yields exactly one anchor for Day and exactly two
  anchors, one for the morning and one for the evening, for each of the three twilight
  phases and for Night: nine anchors in all.
\<close>

theorem labels_on_full_day:
  assumes day: "last_day_of ms = n1 @ a1 @ u1 @ c1 @ dy @ c2 @ u2 @ a2 @ n2"
    and ne: "n1 \<noteq> []" "a1 \<noteq> []" "u1 \<noteq> []" "c1 \<noteq> []" "dy \<noteq> []" "c2 \<noteq> []" "u2 \<noteq> []"
      "a2 \<noteq> []" "n2 \<noteq> []"
    and am: "\<forall>r \<in> set n1. has_stage ''Night'' r \<and> before_noon r"
      "\<forall>r \<in> set a1. has_stage ''Astronomical twilight'' r \<and> before_noon r"
      "\<forall>r \<in> set u1. has_stage ''Nautical twilight'' r \<and> before_noon r"
      "\<forall>r \<in> set c1. has_stage ''Civil twilight'' r \<and> before_noon r"
    and dy: "\<forall>r \<in> set dy. has_stage ''Day'' r"
    and pm: "\<forall>r \<in> set c2. has_stage ''Civil twilight'' r \<and> \<not> before_noon r"
      "\<forall>r \<in> set u2. has_stage ''Nautical twilight'' r \<and> \<not> before_noon r"
      "\<forall>r \<in> set a2. has_stage ''Astronomical twilight'' r \<and> \<not> before_noon r"
      "\<forall>r \<in> set n2. has_stage ''Night'' r \<and> \<not> before_noon r"
  shows "length (labels_of ms) = 9 \<and>
    map lPeriod (labels_of ms) =
      [''Astronomical twilight_AM'', ''Astronomical twilight_PM'', ''Civil twilight_AM'',
       ''Civil twilight_PM'', ''Day'', ''Nautical twilight_AM'', ''Nautical twilight_PM'',
       ''Night_AM'', ''Night_PM''] \<and>
    map label_text (labels_of ms) =
      [''Astronomical twilight'', ''Astronomical twilight'', ''Civil twilight'', ''Civil twilight'',
       ''Day'', ''Nautical twilight'', ''Nautical twilight'', ''Night'', ''Night'']"
proof -
  have k: "map lPeriod (labels_of ms) =
      [''Astronomical twilight_AM'', ''Astronomical twilight_PM'', ''Civil twilight_AM'',
       ''Civil twilight_PM'', ''Day'', ''Nautical twilight_AM'', ''Nautical twilight_PM'',
       ''Night_AM'', ''Night_PM'']"
    unfolding map_lPeriod_labels by (rule full_day_periods [OF day ne am dy pm])
  have "length (map lPeriod (labels_of ms)) = 9" unfolding k by simp
  then have l: "length (labels_of ms) = 9" by simp
  have "map label_text (labels_of ms) =
      map (\<lambda>k. takeWhile (\<lambda>c. c \<noteq> CHR ''_'') k) (map lPeriod (labels_of ms))"
    by (simp add: label_text_def o_def)
  then have t: "map label_text (labels_of ms) =
      [''Astronomical twilight'', ''Astronomical twilight'', ''Civil twilight'', ''Civil twilight'',
       ''Day'', ''Nautical twilight'', ''Nautical twilight'', ''Night'', ''Night'']"
    unfolding k nine_label_texts .
  from l k t show ?thesis by (intro conjI)
qed

theorem labels_on_full_day_witness:
  "\<exists>ls. labels (events_between noon_events) = Inr ls \<and> length ls = 9 \<and>
     map label_text ls =
       [''Astronomical twilight'', ''Astronomical twilight'', ''Civil twilight'', ''Civil twilight'',
        ''Day'', ''Nautical twilight'', ''Nautical twilight'', ''Night'', ''Night'']"
proof -
  define r0 where "r0 = \<lparr>DateTime = 27350635, filled = Some \<lparr>StageStart = 1641038105000000, Stage = ''Night'', StageID = 0\<rparr>, Date = 18993, Time = 715\<rparr>"
  define r1 where "r1 = \<lparr>DateTime = 27350636, filled = Some \<lparr>StageStart = 1641038170000000, Stage = ''Astronomical twilight'', StageID = 1\<rparr>, Date = 18993, Time = 716\<rparr>"
  define r2 where "r2 = \<lparr>DateTime = 27350637, filled = Some \<lparr>StageStart = 1641038240000000, Stage = ''Nautical twilight'', StageID = 2\<rparr>, Date = 18993, Time = 717\<rparr>"
  define r3 where "r3 = \<lparr>DateTime = 27350638, filled = Some \<lparr>StageStart = 1641038310000000, Stage = ''Civil twilight'', StageID = 3\<rparr>, Date = 18993, Time = 718\<rparr>"
  define r4 where "r4 = \<lparr>DateTime = 27350639, filled = Some \<lparr>StageStart = 1641038380000000, Stage = ''Day'', StageID = 4\<rparr>, Date = 18993, Time = 719\<rparr>"
  define r5 where "r5 = \<lparr>DateTime = 27350640, filled = Some \<lparr>StageStart = 1641038380000000, Stage = ''Day'', StageID = 4\<rparr>, Date = 18993, Time = 720\<rparr>"
  define r6 where "r6 = \<lparr>DateTime = 27350641, filled = Some \<lparr>StageStart = 1641038465000000, Stage = ''Civil twilight'', StageID = 3\<rparr>, Date = 18993, Time = 721\<rparr>"
  define r7 where "r7 = \<lparr>DateTime = 27350642, filled = Some \<lparr>StageStart = 1641038530000000, Stage = ''Nautical twilight'', StageID = 2\<rparr>, Date = 18993, Time = 722\<rparr>"
  define r8 where "r8 = \<lparr>DateTime = 27350643, filled = Some \<lparr>StageStart = 1641038600000000, Stage = ''Astronomical twilight'', StageID = 1\<rparr>, Date = 18993, Time = 723\<rparr>"
  define r9 where "r9 = \<lparr>DateTime = 27350644, filled = Some \<lparr>StageStart = 1641038670000000, Stage = ''Night'', StageID = 0\<rparr>, Date = 18993, Time = 724\<rparr>"
  note defs = r0_def r1_def r2_def r3_def r4_def r5_def r6_def r7_def r8_def r9_def
  define ms where "ms = [r0, r1, r2, r3, r4, r5, r6, r7, r8, r9]"
  have m: "all_minutes (events_between noon_events) = Inr ms"
    unfolding noon_minutes ms_def defs ..
  have dts: "map Date ms = [18993, 18993, 18993, 18993, 18993, 18993, 18993, 18993, 18993, 18993]"
    by (simp add: ms_def defs)
  have mx: "Max (set (map Date ms)) = 18993" unfolding dts by simp
  have ne: "ms \<noteq> []" by (simp add: ms_def)
  have "last_day_of ms = filter (\<lambda>r. Date r = 18993) ms"
    unfolding last_day_of_def mx using ne by simp
  also have "\<dots> = ms" unfolding ms_def defs by simp
  finally have day: "last_day_of ms = [r0] @ [r1] @ [r2] @ [r3] @ [r4, r5] @ [r6] @ [r7] @ [r8] @ [r9]"
    by (simp add: ms_def)
  note t = labels_on_full_day [OF day]
  have c: "length (labels_of ms) = 9 \<and>
    map lPeriod (labels_of ms) =
      [''Astronomical twilight_AM'', ''Astronomical twilight_PM'', ''Civil twilight_AM'',
       ''Civil twilight_PM'', ''Day'', ''Nautical twilight_AM'', ''Nautical twilight_PM'',
       ''Night_AM'', ''Night_PM''] \<and>
    map label_text (labels_of ms) =
      [''Astronomical twilight'', ''Astronomical twilight'', ''Civil twilight'', ''Civil twilight'',
       ''Day'', ''Nautical twilight'', ''Nautical twilight'', ''Night'', ''Night'']"
    by (rule t) (simp_all add: defs has_stage_def before_noon_def)
  note c1 = c [THEN conjunct1] and c3 = c [THEN conjunct2, THEN conjunct2]
  have l: "labels (events_between noon_events) = Inr (labels_of ms)"
    by (simp add: labels_def m)
  from l c1 c3 show ?thesis by (intro exI [of _ "labels_of ms"] conjI)
qed

section \<open>One anchor per period\<close>




section \<open>The ends of the year have a phase\<close>

text \<open>
  Claim C5, as stated, fails: the day of padding before the window does not ensure that an
  event precedes the first minute of the year. In a run whose sweep finds no event on
  2021-12-31 and a first event at 08:00:30 on 2022-01-01, the pipeline raises no error and
  the filtered table has the four rows 08:00 to 08:03 of 2022-01-01: neither the first
  minute of the year, 2022-01-01 00:00, nor its last, 2022-12-31 23:59, is a row of the
  table, so neither has a phase-id.
\<close>

theorem year_start_missing_counterexample:
  "events_between polar_events (dates ! 0) (dates ! 1) = [] \<and>
   map_sum id (map (\<lambda>r. (DateTime r, map_option StageID (filled r))))
     (all_minutes (events_between polar_events)) =
     Inr [(utc_minute 2022 1 1 8 0, Some 1), (utc_minute 2022 1 1 8 1, Some 1),
          (utc_minute 2022 1 1 8 2, Some 1), (utc_minute 2022 1 1 8 3, Some 0)] \<and>
   utc_minute 2022 1 1 0 0 < utc_minute 2022 1 1 8 0 \<and>
   utc_minute 2022 1 1 8 3 < utc_minute 2022 12 31 23 59"
proof -
  have d: "dates ! 0 = 1640908800000000" "dates ! 1 = 1640995200000000"
    by (simp_all add: dates_nth local_midnight_def day_numbers minutes_per_day_def
        us_per_minute_def)
  have c1: "events_between polar_events (dates ! 0) (dates ! 1) = []"
    unfolding d by (simp add: polar_events_def events_between_def)
  have m: "utc_minute 2022 1 1 0 0 = 27349920" "utc_minute 2022 1 1 8 0 = 27350400"
    "utc_minute 2022 1 1 8 1 = 27350401" "utc_minute 2022 1 1 8 2 = 27350402"
    "utc_minute 2022 1 1 8 3 = 27350403" "utc_minute 2022 12 31 23 59 = 27875519"
    by (simp_all add: utc_minute_def minutes_per_day_def day_numbers)
  have c2: "map_sum id (map (\<lambda>r. (DateTime r, map_option StageID (filled r))))
     (all_minutes (events_between polar_events)) =
     Inr [(utc_minute 2022 1 1 8 0, Some 1), (utc_minute 2022 1 1 8 1, Some 1),
          (utc_minute 2022 1 1 8 2, Some 1), (utc_minute 2022 1 1 8 3, Some 0)]"
    unfolding m polar_minutes by simp
  have c3: "utc_minute 2022 1 1 0 0 < utc_minute 2022 1 1 8 0"
    and c4: "utc_minute 2022 1 1 8 3 < utc_minute 2022 12 31 23 59"
    unfolding m by simp_all
  from c1 c2 c3 c4 show ?thesis by (intro conjI)
qed

text \<open>
  Claim C5, amended. Every row of the filtered table carries the columns of an event at or
  before its minute, with a phase-id from 0 to 4, so no row has a null phase and no minute
  before the first event is in the table. When the sweep reports an event at or before
  2022-01-01 00:00 and one at or after 2022-12-31 23:59, the first row is the first minute
  of the year and the last row its last minute, both with a phase. The sweep starts one
  full day before the window, on 2021-12-31 at 00:00, which leaves room for such an event
  but does not ensure one.
\<close>

theorem year_window_ends_have_phase:
  assumes rec: "all_records f = Inr rs" and mins: "all_minutes f = Inr ms"
  shows "(\<forall>r \<in> set ms. \<exists>(t, n, e) \<in> set rs.
            filled r = Some \<lparr>StageStart = t, Stage = n, StageID = e\<rparr> \<and>
            0 \<le> e \<and> e \<le> 4 \<and> t div us_per_minute \<le> DateTime r) \<and>
         ((\<exists>(t, n, e) \<in> set rs. t div us_per_minute \<le> utc_minute 2022 1 1 0 0) \<and>
          (\<exists>(t, n, e) \<in> set rs. utc_minute 2022 12 31 23 59 \<le> t div us_per_minute) \<longrightarrow>
            ms \<noteq> [] \<and> DateTime (hd ms) = utc_minute 2022 1 1 0 0 \<and>
            DateTime (last ms) = utc_minute 2022 12 31 23 59 \<and>
            filled (hd ms) \<noteq> None \<and> filled (last ms) \<noteq> None) \<and>
         dates ! 0 + 1440 * us_per_minute = window_start"
proof (intro conjI ballI impI)
  from rec mins have a: "all_minutes_of rs = Inr ms" by (simp add: all_minutes_def)
  {
    fix r assume r: "r \<in> set ms"
    from all_minutes_of_row [OF a r] obtain ev where ev: "ev \<in> set rs"
      "filled r = Some (row_of ev)" "latest (map keyed rs) (DateTime r) (keyed ev)" by blast
    obtain t n e where tne: "ev = (t, n, e)" by (cases ev)
    from all_records_valid [OF rec] ev(1) have "0 \<le> e \<and> e \<le> 4" by (auto simp add: tne)
    moreover from ev(3) have "t div us_per_minute \<le> DateTime r"
      by (simp add: latest_def tne keyed_def)
    moreover from ev(2) have "filled r = Some \<lparr>StageStart = t, Stage = n, StageID = e\<rparr>"
      by (simp add: tne row_of_def keyed_def)
    ultimately show "\<exists>(t, n, e) \<in> set rs.
            filled r = Some \<lparr>StageStart = t, Stage = n, StageID = e\<rparr> \<and>
            0 \<le> e \<and> e \<le> 4 \<and> t div us_per_minute \<le> DateTime r"
      using ev(1) tne by blast
  } note row = this
  show "dates ! 0 + 1440 * us_per_minute = window_start" by (rule padding_day)
  assume b: "(\<exists>(t, n, e) \<in> set rs. t div us_per_minute \<le> utc_minute 2022 1 1 0 0) \<and>
          (\<exists>(t, n, e) \<in> set rs. utc_minute 2022 12 31 23 59 \<le> t div us_per_minute)"
  have fin: "finite (floored ` set rs)" by simp
  from b obtain ev1 where "ev1 \<in> set rs" "floored ev1 \<le> year_first_minute"
    by (auto simp add: year_first_minute_def floored_def keyed_def)
  then have lo: "Min (floored ` set rs) \<le> year_first_minute"
    by (meson Min_le fin imageI order_trans)
  from b obtain ev2 where "ev2 \<in> set rs" "year_last_minute \<le> floored ev2"
    by (auto simp add: year_last_minute_def floored_def keyed_def)
  then have hi: "year_last_minute \<le> Max (floored ` set rs)"
    by (meson Max_ge fin imageI order_trans)
  from lo have "max (Min (floored ` set rs)) year_first_minute = year_first_minute" by simp
  moreover from hi have "min (Max (floored ` set rs)) year_last_minute = year_last_minute" by simp
  ultimately have dt: "map DateTime ms = [year_first_minute .. year_last_minute]"
    using all_minutes_of_minutes [OF a] by simp
  have ends: "[year_first_minute .. year_last_minute] \<noteq> [] \<and>
      hd [year_first_minute .. year_last_minute] = year_first_minute \<and>
      last [year_first_minute .. year_last_minute] = year_last_minute"
    by (rule upto_ends) (simp add: year_minutes)
  from dt ends have ne: "ms \<noteq> []" by (metis map_is_Nil_conv)
  from ne show "ms \<noteq> []" .
  have "DateTime (hd ms) = hd (map DateTime ms)" using ne by (simp add: hd_map)
  also have "\<dots> = year_first_minute" unfolding dt using ends by blast
  finally show "DateTime (hd ms) = utc_minute 2022 1 1 0 0" by (simp add: year_first_minute_def)
  have "DateTime (last ms) = last (map DateTime ms)" using ne by (simp add: last_map)
  also have "\<dots> = year_last_minute" unfolding dt using ends by blast
  finally show "DateTime (last ms) = utc_minute 2022 12 31 23 59" by (simp add: year_last_minute_def)
  from ne row [of "hd ms"] show "filled (hd ms) \<noteq> None" by auto
  from ne row [of "last ms"] show "filled (last ms) \<noteq> None" by auto
qed

theorem year_window_ends_have_phase_witness:
  "\<exists>ms. all_minutes (events_between year_events) = Inr ms \<and> ms \<noteq> [] \<and>
     DateTime (hd ms) = utc_minute 2022 1 1 0 0 \<and>
     DateTime (last ms) = utc_minute 2022 12 31 23 59 \<and>
     filled (hd ms) \<noteq> None \<and> filled (last ms) \<noteq> None"
proof -
  from year_minutes_exist obtain ms where ms: "all_minutes (events_between year_events) = Inr ms" ..
  from year_window_ends_have_phase [OF year_run ms] year_bracket ms show ?thesis by blast
qed

section \<open>Phase-ids\<close>

lemma noon_grid:
  "pivoted (events_between noon_events) =
     Inr \<lparr>index = [715, 716, 717, 718, 719, 720, 721, 722, 723, 724], columns = [18993],
          cells = [[Some 0], [Some 1], [Some 2], [Some 3], [Some 4], [Some 4], [Some 3],
                   [Some 2], [Some 1], [Some 0]]\<rparr>"
  unfolding pivoted_def noon_minutes
  by (simp add: pivot_table_def valued_def cell_def mean_def)

text \<open>
  Claim C7. When the pipeline raises no error, every record of the sweep carries a phase-id
  from 0 to 4 together with the name the library's table gives it; every row of the minute
  table carries such a record; and every non-empty cell of the grid is one of 0, 1, 2, 3
  and 4 (the mean of the phase-ids of a slot, whose rows all carry the same phase: an event
  inside the hour the clock repeats would have raised). The table runs from the darkest
  phase, 0 for Night, to 4 for Day.
\<close>

theorem phase_ids_in_range:
  assumes rec: "all_records f = Inr rs" and mins: "all_minutes f = Inr ms"
    and piv: "pivoted f = Inr g"
  shows "(\<forall>(t, n, e) \<in> set rs. TWILIGHTS e = Some n \<and> 0 \<le> e \<and> e \<le> 4) \<and>
    (\<forall>r \<in> set ms. \<exists>s. filled r = Some s \<and> TWILIGHTS (StageID s) = Some (Stage s) \<and>
        0 \<le> StageID s \<and> StageID s \<le> 4) \<and>
    (\<forall>row \<in> set (cells g). \<forall>c \<in> set row. \<forall>q. c = Some q \<longrightarrow> q \<in> {0, 1, 2, 3, 4}) \<and>
    TWILIGHTS 0 = Some ''Night'' \<and> TWILIGHTS 1 = Some ''Astronomical twilight'' \<and>
    TWILIGHTS 2 = Some ''Nautical twilight'' \<and> TWILIGHTS 3 = Some ''Civil twilight'' \<and>
    TWILIGHTS 4 = Some ''Day'' \<and> dom TWILIGHTS = {0, 1, 2, 3, 4}"
proof -
  from rec mins have a: "all_minutes_of rs = Inr ms" by (simp add: all_minutes_def)
  from mins piv have g: "g = pivot_table ms" by (simp add: pivoted_def)
  have c1: "\<forall>(t, n, e) \<in> set rs. TWILIGHTS e = Some n \<and> 0 \<le> e \<and> e \<le> 4"
    using all_records_valid [OF rec] by blast
  have c2: "\<forall>r \<in> set ms. \<exists>s. filled r = Some s \<and> TWILIGHTS (StageID s) = Some (Stage s) \<and>
        0 \<le> StageID s \<and> StageID s \<le> 4"
  proof
    fix r assume r: "r \<in> set ms"
    from all_minutes_of_row [OF a r] obtain ev where ev: "ev \<in> set rs"
      "filled r = Some (row_of ev)" by blast
    obtain t n e where tne: "ev = (t, n, e)" by (cases ev)
    from all_records_valid [OF rec] ev(1) have "TWILIGHTS e = Some n \<and> 0 \<le> e \<and> e \<le> 4"
      by (simp add: tne)
    then have "TWILIGHTS (StageID (row_of ev)) = Some (Stage (row_of ev)) \<and>
        0 \<le> StageID (row_of ev) \<and> StageID (row_of ev) \<le> 4"
      by (simp add: tne StageID_row_of)
    with ev(2) show "\<exists>s. filled r = Some s \<and> TWILIGHTS (StageID s) = Some (Stage s) \<and>
        0 \<le> StageID s \<and> StageID s \<le> 4" by blast
  qed
  have c3: "\<forall>row \<in> set (cells g). \<forall>c \<in> set row. \<forall>q. c = Some q \<longrightarrow> q \<in> {0, 1, 2, 3, 4}"
  proof (intro ballI allI impI)
    fix row c q
    assume rw: "row \<in> set (cells g)" and c: "c \<in> set row" and q: "c = Some q"
    from pivot_table_cells [of row ms c] rw c g obtain t d where td: "c = cell (valued ms) t d"
      by blast
    with q have cq: "cell (valued ms) t d = Some q" by simp
    then obtain w where w: "(t, d, w) \<in> set (valued ms)"
      using cell_None_iff [of "valued ms" t d] by auto
    have "\<forall>v. (t, d, v) \<in> set (valued ms) \<longrightarrow> v = w"
      using slot_single_phase [OF a _ w] by blast
    from cell_const [OF cq this] have qw: "q = of_int w" .
    from w obtain r s where r: "r \<in> set ms" "filled r = Some s" "w = StageID s"
      unfolding valued_iff by blast
    from all_minutes_of_row [OF a r(1)] r(2) obtain ev where ev: "ev \<in> set rs" "s = row_of ev"
      by auto
    obtain t' n e where tne: "ev = (t', n, e)" by (cases ev)
    from all_records_valid [OF rec] ev(1) have "0 \<le> e \<and> e \<le> 4" by (simp add: tne)
    with r(3) ev(2) have "0 \<le> w \<and> w \<le> 4" by (simp add: tne StageID_row_of)
    then have "w = 0 \<or> w = 1 \<or> w = 2 \<or> w = 3 \<or> w = 4" by arith
    with qw show "q \<in> {0, 1, 2, 3, 4}" by auto
  qed
  have c4: "TWILIGHTS 0 = Some ''Night'' \<and> TWILIGHTS 1 = Some ''Astronomical twilight'' \<and>
    TWILIGHTS 2 = Some ''Nautical twilight'' \<and> TWILIGHTS 3 = Some ''Civil twilight'' \<and>
    TWILIGHTS 4 = Some ''Day''"
    by (simp add: TWILIGHTS_def)
  have c5: "dom TWILIGHTS = {0, 1, 2, 3, 4}"
    by (auto simp add: TWILIGHTS_def split: if_splits)
  from c1 c2 c3 c4 c5 show ?thesis by (intro conjI) (elim conjE, assumption)+
qed

theorem phase_ids_in_range_witness:
  "\<exists>g. pivoted (events_between noon_events) = Inr g \<and>
     cells g = [[Some 0], [Some 1], [Some 2], [Some 3], [Some 4], [Some 4], [Some 3],
                [Some 2], [Some 1], [Some 0]] \<and>
     (Some 4 :: rat option) \<in> Some ` {0, 1, 2, 3, 4} \<and>
     TWILIGHTS 0 = Some ''Night'' \<and> TWILIGHTS 4 = Some ''Day''"
proof -
  note t = phase_ids_in_range [OF noon_run noon_minutes noon_grid]
  from t have "TWILIGHTS 0 = Some ''Night'' \<and> TWILIGHTS 4 = Some ''Day''" by (elim conjE) simp
  then show ?thesis by (simp add: noon_grid)
qed

section \<open>The day-by-day sweep\<close>

text \<open>
  Claim C8, as stated, fails: the windows are not all 24 hours long. The sweep steps by
  calendar day in Europe/London, and the window of 2022-03-27, when the clocks go forward,
  is 23 hours long.
\<close>

theorem sweep_window_not_24h_counterexample:
  "dates ! 86 = 1648339200000000 \<and> dates ! 87 = 1648422000000000 \<and>
   dates ! 87 - dates ! 86 = 23 * 60 * us_per_minute"
  by (simp add: dates_def local_midnight_def day_numbers minutes_per_day_def us_per_minute_def)

text \<open>
  Claim C8, amended. The sweep asks the oracle about 369 consecutive windows, each from
  one local midnight to the next: 24 hours long except on 2022-03-27 (23 hours) and on
  2022-10-30 (25 hours). The records are the oracle's answers in the order of the windows.
  When each answer is in chronological order and strictly inside its window, the records
  are in chronological order and strictly inside the whole interval, from 2021-12-31 00:00
  to 2023-01-04 00:00.
\<close>

theorem sweep_by_calendar_day:
  assumes contract: "\<forall>(a, b) \<in> set (zip dates (tl dates)).
             sorted (map fst (f a b)) \<and> (\<forall>(t, e) \<in> set (f a b). a < t \<and> t < b)"
    and ok: "all_records f = Inr rs"
  shows "length (zip dates (tl dates)) = 369 \<and>
    (\<forall>i < 369. zip dates (tl dates) ! i = (dates ! i, dates ! Suc i) \<and>
       dates ! i = local_midnight (days_from_civil 2021 12 31 + int i) * us_per_minute \<and>
       dates ! Suc i - dates ! i =
         (if i = 86 then 23 else if i = 303 then 25 else 24) * 60 * us_per_minute) \<and>
    map (\<lambda>(t, n, e). (t, e)) rs = concat (map (\<lambda>(a, b). f a b) (zip dates (tl dates))) \<and>
    sorted (map fst rs) \<and>
    (\<forall>(t, n, e) \<in> set rs. dates ! 0 < t \<and> t < dates ! 369)"
proof (intro conjI)
  show "length (zip dates (tl dates)) = 369" by (simp add: length_dates)
  show "\<forall>i < 369. zip dates (tl dates) ! i = (dates ! i, dates ! Suc i) \<and>
       dates ! i = local_midnight (days_from_civil 2021 12 31 + int i) * us_per_minute \<and>
       dates ! Suc i - dates ! i =
         (if i = 86 then 23 else if i = 303 then 25 else 24) * 60 * us_per_minute"
    using dates_step by (simp add: length_dates nth_tl dates_nth day_numbers)
  from ok have sw: "sweep f dates = Inr rs" by (simp add: all_records_def)
  from sweep_events [OF sw]
  show "map (\<lambda>(t, n, e). (t, e)) rs = concat (map (\<lambda>(a, b). f a b) (zip dates (tl dates)))"
    by simp
  from sweep_sorted [OF sorted_dates contract sw]
  have s: "sorted (map fst rs)" and r: "\<forall>t \<in> set (map fst rs). hd dates < t \<and> t < last dates"
    by simp_all
  from s show "sorted (map fst rs)" .
  from r show "\<forall>(t, n, e) \<in> set rs. dates ! 0 < t \<and> t < dates ! 369"
    by (auto simp add: hd_dates last_dates)
qed

theorem sweep_by_calendar_day_witness:
  "map (\<lambda>(t, n, e). (t, e)) (map named noon_events) =
     concat (map (\<lambda>(a, b). events_between noon_events a b) (zip dates (tl dates))) \<and>
   sorted (map fst (map named noon_events)) \<and>
   dates ! Suc 86 - dates ! 86 = 23 * 60 * us_per_minute"
proof -
  have "\<forall>(a, b) \<in> set (zip dates (tl dates)).
      sorted (map fst (events_between noon_events a b)) \<and>
      (\<forall>(t, e) \<in> set (events_between noon_events a b). a < t \<and> t < b)"
    by (rule events_between_contract) (simp_all add: noon_events_def)
  from sweep_by_calendar_day [OF this noon_run]
  have a: "map (\<lambda>(t, n, e). (t, e)) (map named noon_events) =
       concat (map (\<lambda>(a, b). events_between noon_events a b) (zip dates (tl dates)))"
    and b: "sorted (map fst (map named noon_events))"
    and c: "\<forall>i < 369. zip dates (tl dates) ! i = (dates ! i, dates ! Suc i) \<and>
       dates ! i = local_midnight (days_from_civil 2021 12 31 + int i) * us_per_minute \<and>
       dates ! Suc i - dates ! i =
         (if i = 86 then 23 else if i = 303 then 25 else 24) * 60 * us_per_minute"
    by blast+
  have "(86::nat) < 369" by simp
  from c [rule_format, OF this]
  have "dates ! Suc 86 - dates ! 86 = (if (86::nat) = 86 then 23 else 24) * 60 * us_per_minute"
    by (elim conjE) simp
  then have "dates ! Suc 86 - dates ! 86 = 23 * 60 * us_per_minute" by simp
  with a b show ?thesis by (intro conjI)
qed

section \<open>The seasonal query stops before the last day\<close>

text \<open>
  Claim C10. The seasonal events are searched once, between 2022-01-01 00:00 UTC and
  2022-12-31 00:00 UTC. When the oracle reports only events of that half-open interval,
  every reported event falls on a local date before 2022-12-31, and so does every marked
  solstice: an event on the last day of the year is not retained.
\<close>

theorem seasons_query_stops_before_last_day:
  assumes half_open: "\<forall>(t, i) \<in> set (g seasons_t0 seasons_t1). seasons_t0 \<le> t \<and> t < seasons_t1"
    and ok: "solstices g = Inr marks"
  shows "seasons_t0 = utc_minute 2022 1 1 0 0 * us_per_minute \<and>
    seasons_t1 = utc_minute 2022 12 31 0 0 * us_per_minute \<and>
    solstices g = mark_solstices (g seasons_t0 seasons_t1) \<and>
    (\<forall>(t, i) \<in> set (g seasons_t0 seasons_t1).
       to_local (t div us_per_minute) div minutes_per_day < days_from_civil 2022 12 31) \<and>
    (\<forall>(d, name) \<in> set marks. d < days_from_civil 2022 12 31)"
proof (intro conjI)
  show "seasons_t0 = utc_minute 2022 1 1 0 0 * us_per_minute" by (simp add: seasons_t0_def)
  show "seasons_t1 = utc_minute 2022 12 31 0 0 * us_per_minute" by (simp add: seasons_t1_def)
  show "solstices g = mark_solstices (g seasons_t0 seasons_t1)" by (simp add: solstices_def)
  show w: "\<forall>(t, i) \<in> set (g seasons_t0 seasons_t1).
           to_local (t div us_per_minute) div minutes_per_day < days_from_civil 2022 12 31"
    using half_open local_date_in_seasons_window(2) by fastforce
  from ok have "mark_solstices (g seasons_t0 seasons_t1) = Inr marks" by (simp add: solstices_def)
  from mark_solstices_dates [OF this] w
  show "\<forall>(d, name) \<in> set marks. d < days_from_civil 2022 12 31" by fastforce
qed

theorem seasons_query_stops_before_last_day_witness:
  "solstices (seasons_between (seasons_2022 @ [(1672488000000000, 3)])) =
     Inr [(19164, ''Summer Solstice''), (19347, ''Winter Solstice'')] \<and>
   19164 < days_from_civil 2022 12 31 \<and> 19347 < days_from_civil 2022 12 31"
proof -
  let ?g = "seasons_between (seasons_2022 @ [(1672488000000000, 3)])"
  have q: "?g seasons_t0 seasons_t1 = seasons_2022"
    by (simp add: seasons_between_def seasons_2022_def instant_numbers)
  have m: "solstices ?g = Inr [(19164, ''Summer Solstice''), (19347, ''Winter Solstice'')]"
    unfolding solstices_def q
    by (simp add: seasons_2022_def season_names solstice_test to_local_def utcoffset_def
        minute_numbers us_per_minute_def minutes_per_day_def)
  have h: "\<forall>(t, i) \<in> set (?g seasons_t0 seasons_t1). seasons_t0 \<le> t \<and> t < seasons_t1"
    unfolding q by (simp add: seasons_2022_def instant_numbers)
  from seasons_query_stops_before_last_day [OF h m] m show ?thesis by simp
qed

end
